theory Spec2Isabelle
  imports Main "HOL-Library.List_Lexorder"
begin

section \<open>Python values\<close>

text \<open>
  A Python \<open>str\<close> is a sequence of code points and a \<open>bytes\<close> object a sequence of
  numbers below 256; both are lists of naturals here. \<open>u\<close> turns an ASCII literal into
  a \<open>str\<close>.
\<close>

type_synonym pystr = "nat list"
type_synonym bytes = "nat list"

definition u :: "string \<Rightarrow> pystr" where
  "u s = map of_char s"

text \<open>
  The values \<open>json.loads\<close> returns. A \<open>dict\<close> keeps its items in insertion order, so
  it is an association list. A Python \<open>float\<close> is identified by the text
  \<open>json.dumps\<close> writes for it (its \<open>repr\<close>, or \<open>NaN\<close>, \<open>Infinity\<close>, \<open>-Infinity\<close>):
  two finite floats with the same \<open>repr\<close> are the same float.
\<close>

datatype json =
    JNull
  | JBool bool
  | JInt int
  | JFloat pystr
  | JStr pystr
  | JList "json list"
  | JDict "(pystr \<times> json) list"

text \<open>The exceptions that can leave a function of \<open>validate.py\<close>.\<close>

datatype exn =
    TypeError
  | KeyError
  | AttributeError
  | IOError
  | UnicodeEncodeError
  | RecursionError
  | SystemExit pystr
  | ValidationError pystr
  | SchemaError pystr

text \<open>
  What the program takes from outside the repository and the \<open>json\<close> module:
  \<^item> the \<open>jsonschema\<close> engine: \<open>check_schema\<close> is
    \<open>Draft4Validator.check_schema\<close> and \<open>validate\<close> is \<open>jsonschema.validate\<close> of an
    instance against a schema. Either returns normally, \<open>Inr ()\<close>, or raises:
    \<open>check_schema\<close> raises \<open>SchemaError\<close> on a document that is no Draft 4 schema;
    \<open>validate\<close> checks the schema first, under the validator that the \<open>$schema\<close> of
    the schema selects, and raises \<open>SchemaError\<close> there, then \<open>ValidationError\<close> on
    an instance that does not conform; both can raise other exceptions as well, such
    as \<open>RecursionError\<close> on a deep document;
  \<^item> \<open>py_repr\<close>, which is \<open>str()\<close> of a value that is not a \<open>str\<close>;
  \<^item> floating point: \<open>float_text\<close> maps a number literal to the text of the float it
    denotes, and \<open>float_eq_int r i\<close> compares the float written \<open>r\<close> with the
    integer \<open>i\<close>;
  \<^item> the limits of the interpreter: \<open>decoder_depth\<close> is the number of arrays and
    objects inside one another that \<open>json.loads\<close> can enter where \<open>load_json_file\<close>
    calls it, and \<open>encoder_depth\<close> the same for \<open>json.dumps\<close>, before
    \<open>RecursionError\<close> is raised (the recursion limit, 1000 by default, less the calls
    under way); \<open>int_max_str_digits\<close> is the number of digits above which \<open>int\<close>
    refuses a literal with \<open>ValueError\<close> (4300 by default; 0 is no limit);
  \<^item> the texts of the \<open>ValueError\<close> raised on the bytes of a file and of the
    \<open>IOError\<close> raised on a path, which \<open>print(e)\<close> writes.
\<close>

record ext =
  check_schema :: "json \<Rightarrow> exn + unit"
  validate :: "json \<Rightarrow> json \<Rightarrow> exn + unit"
  py_repr :: "json \<Rightarrow> pystr"
  float_text :: "pystr \<Rightarrow> pystr"
  float_eq_int :: "pystr \<Rightarrow> int \<Rightarrow> bool"
  decoder_depth :: nat
  encoder_depth :: nat
  int_max_str_digits :: nat
  value_error_text :: "bytes \<Rightarrow> pystr"
  io_error_text :: "pystr \<Rightarrow> pystr"

text \<open>Truth value testing, as \<open>not x\<close> and \<open>if x\<close> use it.\<close>

fun truthy :: "json \<Rightarrow> bool" where
  "truthy JNull = False"
| "truthy (JBool b) = b"
| "truthy (JInt i) = (i \<noteq> 0)"
| "truthy (JFloat r) = (r \<noteq> u ''0.0'' \<and> r \<noteq> u ''-0.0'')"
| "truthy (JStr s) = (s \<noteq> [])"
| "truthy (JList xs) = (xs \<noteq> [])"
| "truthy (JDict kvs) = (kvs \<noteq> [])"

text \<open>\<open>isinstance(x, list)\<close>.\<close>

fun isinstance_list :: "json \<Rightarrow> bool" where
  "isinstance_list (JList xs) = True"
| "isinstance_list _ = False"

text \<open>\<open>x[k]\<close> with a \<open>str\<close> key, \<open>x.get(k)\<close> and \<open>for y in x\<close>.\<close>

fun py_getitem :: "json \<Rightarrow> pystr \<Rightarrow> exn + json" where
  "py_getitem (JDict kvs) k = (case map_of kvs k of None \<Rightarrow> Inl KeyError | Some v \<Rightarrow> Inr v)"
| "py_getitem _ k = Inl TypeError"

fun py_get :: "json \<Rightarrow> pystr \<Rightarrow> exn + json" where
  "py_get (JDict kvs) k = (case map_of kvs k of None \<Rightarrow> Inr JNull | Some v \<Rightarrow> Inr v)"
| "py_get _ k = Inl AttributeError"

fun py_iter :: "json \<Rightarrow> exn + json list" where
  "py_iter (JList xs) = Inr xs"
| "py_iter (JDict kvs) = Inr (map (\<lambda>kv. JStr (fst kv)) kvs)"
| "py_iter (JStr s) = Inr (map (\<lambda>c. JStr [c]) s)"
| "py_iter _ = Inl TypeError"

text \<open>\<open>str(x)\<close>, which \<open>%s\<close> and \<open>{}\<close> apply to their argument.\<close>

fun py_str :: "ext \<Rightarrow> json \<Rightarrow> pystr" where
  "py_str X (JStr s) = s"
| "py_str X v = py_repr X v"

text \<open>
  \<open>==\<close> on these values: \<open>bool\<close>, \<open>int\<close> and \<open>float\<close> compare as numbers, \<open>NaN\<close>
  equals nothing, lists compare elementwise and dicts item by item whatever the order.
\<close>

definition float_eq :: "pystr \<Rightarrow> pystr \<Rightarrow> bool" where
  "float_eq r r' =
     (r \<noteq> u ''NaN'' \<and> (r = r' \<or> (r \<in> {u ''0.0'', u ''-0.0''} \<and> r' \<in> {u ''0.0'', u ''-0.0''})))"

lemma size_map_of_json [termination_simp]:
  "map_of kvs k = Some (v::json) \<Longrightarrow> size v < Suc (size_list (\<lambda>x. Suc (size (snd x))) kvs)"
  by (induction kvs) (auto split: if_splits)

fun py_eq :: "ext \<Rightarrow> json \<Rightarrow> json \<Rightarrow> bool" where
  "py_eq X JNull b = (b = JNull)"
| "py_eq X (JStr s) b = (b = JStr s)"
| "py_eq X (JBool p) b =
     (case b of JBool q \<Rightarrow> p = q | JInt j \<Rightarrow> j = of_bool p
      | JFloat r \<Rightarrow> float_eq_int X r (of_bool p) | _ \<Rightarrow> False)"
| "py_eq X (JInt i) b =
     (case b of JBool q \<Rightarrow> i = of_bool q | JInt j \<Rightarrow> i = j
      | JFloat r \<Rightarrow> float_eq_int X r i | _ \<Rightarrow> False)"
| "py_eq X (JFloat r) b =
     (case b of JBool q \<Rightarrow> float_eq_int X r (of_bool q) | JInt j \<Rightarrow> float_eq_int X r j
      | JFloat r' \<Rightarrow> float_eq r r' | _ \<Rightarrow> False)"
| "py_eq X (JList xs) b =
     (case b of JList ys \<Rightarrow> list_all2 (py_eq X) xs ys | _ \<Rightarrow> False)"
| "py_eq X (JDict kvs) b =
     (case b of
        JDict kvs' \<Rightarrow>
          length kvs = length kvs' \<and>
          list_all (\<lambda>k. case map_of kvs k of None \<Rightarrow> False
                        | Some v \<Rightarrow> (case map_of kvs' k of None \<Rightarrow> False | Some v' \<Rightarrow> py_eq X v v'))
                   (map fst kvs)
      | _ \<Rightarrow> False)"


section \<open>UTF-8\<close>

text \<open>
  \<open>bytes.decode("utf-8")\<close> and \<open>str.encode("utf-8")\<close> in strict mode: \<open>None\<close> is
  \<open>UnicodeDecodeError\<close> and \<open>UnicodeEncodeError\<close>. Overlong forms, surrogates and
  values above \<open>0x10FFFF\<close> are not decoded, and a surrogate is not encoded.
\<close>

definition is_cont :: "nat \<Rightarrow> bool" where
  "is_cont b = (0x80 \<le> b \<and> b \<le> 0xBF)"

fun utf8_decode :: "bytes \<Rightarrow> pystr option" where
  "utf8_decode [] = Some []"
| "utf8_decode (b # bs) =
     (if b < 0x80 then map_option ((#) b) (utf8_decode bs)
      else if 0xC2 \<le> b \<and> b \<le> 0xDF then
        (case bs of
           c1 # r \<Rightarrow>
             if is_cont c1
             then map_option ((#) ((b - 0xC0) * 64 + (c1 - 0x80))) (utf8_decode r)
             else None
         | _ \<Rightarrow> None)
      else if 0xE0 \<le> b \<and> b \<le> 0xEF then
        (case bs of
           c1 # c2 # r \<Rightarrow>
             if (if b = 0xE0 then 0xA0 else 0x80) \<le> c1 \<and> c1 \<le> (if b = 0xED then 0x9F else 0xBF)
                \<and> is_cont c2
             then map_option ((#) (((b - 0xE0) * 64 + (c1 - 0x80)) * 64 + (c2 - 0x80)))
                    (utf8_decode r)
             else None
         | _ \<Rightarrow> None)
      else if 0xF0 \<le> b \<and> b \<le> 0xF4 then
        (case bs of
           c1 # c2 # c3 # r \<Rightarrow>
             if (if b = 0xF0 then 0x90 else 0x80) \<le> c1 \<and> c1 \<le> (if b = 0xF4 then 0x8F else 0xBF)
                \<and> is_cont c2 \<and> is_cont c3
             then map_option
                    ((#) ((((b - 0xF0) * 64 + (c1 - 0x80)) * 64 + (c2 - 0x80)) * 64 + (c3 - 0x80)))
                    (utf8_decode r)
             else None
         | _ \<Rightarrow> None)
      else None)"

definition utf8_encode_char :: "nat \<Rightarrow> bytes option" where
  "utf8_encode_char c =
     (if c < 0x80 then Some [c]
      else if c < 0x800 then Some [0xC0 + c div 64, 0x80 + c mod 64]
      else if 0xD800 \<le> c \<and> c \<le> 0xDFFF then None
      else if c < 0x10000 then Some [0xE0 + c div 4096, 0x80 + c div 64 mod 64, 0x80 + c mod 64]
      else if c < 0x110000 then
        Some [0xF0 + c div 262144, 0x80 + c div 4096 mod 64, 0x80 + c div 64 mod 64, 0x80 + c mod 64]
      else None)"

fun utf8_encode :: "pystr \<Rightarrow> bytes option" where
  "utf8_encode [] = Some []"
| "utf8_encode (c # s) =
     (case utf8_encode_char c of
        None \<Rightarrow> None
      | Some bs \<Rightarrow> map_option ((@) bs) (utf8_encode s))"

section \<open>The json module: serializing\<close>

text \<open>
  \<open>json.dumps(v, ensure_ascii=False, sort_keys=True, indent=4, separators=(',', ': '))\<close>.
  With \<open>ensure_ascii=False\<close> a string is written as it is but for the quote, the
  backslash and the characters below \<open>0x20\<close>.
\<close>

definition hexdigit :: "nat \<Rightarrow> nat" where
  "hexdigit d = (if d < 10 then 48 + d else 87 + d)"

definition escape_char :: "nat \<Rightarrow> pystr" where
  "escape_char c =
     (if c = 0x5C then [0x5C, 0x5C]
      else if c = 0x22 then [0x5C, 0x22]
      else if c = 0x08 then [0x5C, 0x62]
      else if c = 0x0C then [0x5C, 0x66]
      else if c = 0x0A then [0x5C, 0x6E]
      else if c = 0x0D then [0x5C, 0x72]
      else if c = 0x09 then [0x5C, 0x74]
      else if c < 0x20 then [0x5C, 0x75, 48, 48, hexdigit (c div 16), hexdigit (c mod 16)]
      else [c])"

definition encode_basestring :: "pystr \<Rightarrow> pystr" where
  "encode_basestring s = 0x22 # concat (map escape_char s) @ [0x22]"

text \<open>\<open>int.__repr__\<close>: decimal digits, with a minus sign for a negative number.\<close>

fun str_nat :: "nat \<Rightarrow> pystr" where
  "str_nat n = (if n < 10 then [48 + n] else str_nat (n div 10) @ [48 + n mod 10])"

declare str_nat.simps [simp del]

definition str_int :: "int \<Rightarrow> pystr" where
  "str_int i = (if i < 0 then 45 # str_nat (nat (- i)) else str_nat (nat i))"

definition newline_indent :: "nat \<Rightarrow> pystr" where
  "newline_indent level = 10 # replicate (4 * level) 32"

fun join :: "pystr \<Rightarrow> pystr list \<Rightarrow> pystr" where
  "join sep [] = []"
| "join sep [x] = x"
| "join sep (x # y # ys) = x @ sep @ join sep (y # ys)"

lemma size_sort_key_json [termination_simp]:
  "(k, v) \<in> set (sort_key fst kvs) \<Longrightarrow> size (v::json) < Suc (size_list (\<lambda>x. Suc (size (snd x))) kvs)"
proof -
  have "(k, v) \<in> set kvs \<Longrightarrow> size v < Suc (size_list (\<lambda>x. Suc (size (snd x))) kvs)"
    by (induction kvs) auto
  then show "(k, v) \<in> set (sort_key fst kvs) \<Longrightarrow> ?thesis" by simp
qed

fun iterencode :: "nat \<Rightarrow> json \<Rightarrow> pystr" where
  "iterencode level JNull = u ''null''"
| "iterencode level (JBool b) = (if b then u ''true'' else u ''false'')"
| "iterencode level (JInt i) = str_int i"
| "iterencode level (JFloat r) = r"
| "iterencode level (JStr s) = encode_basestring s"
| "iterencode level (JList xs) =
     (if xs = [] then u ''[]''
      else 0x5B # newline_indent (Suc level)
           @ join (0x2C # newline_indent (Suc level)) (map (iterencode (Suc level)) xs)
           @ newline_indent level @ [0x5D])"
| "iterencode level (JDict kvs) =
     (if kvs = [] then u ''{}''
      else 0x7B # newline_indent (Suc level)
           @ join (0x2C # newline_indent (Suc level))
               (map (\<lambda>(k, v). encode_basestring k @ u '': '' @ iterencode (Suc level) v)
                  (sort_key fst kvs))
           @ newline_indent level @ [0x7D])"

definition json_dumps :: "json \<Rightarrow> pystr" where
  "json_dumps v = iterencode 0 v"

definition format_json :: "json \<Rightarrow> pystr" where
  "format_json json_data = json_dumps json_data @ [10]"


section \<open>The json module: parsing\<close>

text \<open>
  \<open>json.loads\<close> with the default decoder. Every function takes the text from the
  current position on and returns the rest after what it has read; \<open>None\<close> is
  \<open>JSONDecodeError\<close>, a \<open>ValueError\<close>.
\<close>

definition is_ws :: "nat \<Rightarrow> bool" where
  "is_ws c = (c = 0x20 \<or> c = 0x09 \<or> c = 0x0A \<or> c = 0x0D)"

definition skip_ws :: "pystr \<Rightarrow> pystr" where
  "skip_ws s = dropWhile is_ws s"

definition hexval :: "nat \<Rightarrow> nat option" where
  "hexval c =
     (if 48 \<le> c \<and> c \<le> 57 then Some (c - 48)
      else if 97 \<le> c \<and> c \<le> 102 then Some (c - 87)
      else if 65 \<le> c \<and> c \<le> 70 then Some (c - 55)
      else None)"

fun decode_uXXXX :: "pystr \<Rightarrow> (nat \<times> pystr) option" where
  "decode_uXXXX (a # b # c # d # r) =
     (case (hexval a, hexval b, hexval c, hexval d) of
        (Some x, Some y, Some z, Some w) \<Rightarrow> Some (((x * 16 + y) * 16 + z) * 16 + w, r)
      | _ \<Rightarrow> None)"
| "decode_uXXXX _ = None"

text \<open>The \<open>BACKSLASH\<close> table of the decoder.\<close>

definition backslash :: "nat \<Rightarrow> nat option" where
  "backslash e =
     (if e = 0x22 then Some 0x22
      else if e = 0x5C then Some 0x5C
      else if e = 0x2F then Some 0x2F
      else if e = 0x62 then Some 0x08
      else if e = 0x66 then Some 0x0C
      else if e = 0x6E then Some 0x0A
      else if e = 0x72 then Some 0x0D
      else if e = 0x74 then Some 0x09
      else None)"

definition cons_chr :: "nat \<Rightarrow> (pystr \<times> pystr) option \<Rightarrow> (pystr \<times> pystr) option" where
  "cons_chr c res = map_option (\<lambda>(str, r). (c # str, r)) res"

lemma decode_uXXXX_length: "decode_uXXXX s = Some (v, r) \<Longrightarrow> length r < length s"
  by (cases s rule: decode_uXXXX.cases) (auto split: option.splits)

text \<open>
  \<open>scanstring\<close> in strict mode, from after the opening quote. The escape (a backslash,
  \<open>u\<close> and four hex digits) of a high surrogate followed by the escape of a low
  surrogate is one character; any other surrogate escape is kept as it is.
\<close>

function scanstring :: "pystr \<Rightarrow> (pystr \<times> pystr) option" where
  "scanstring [] = None"
| "scanstring (c # s) =
     (if c = 0x22 then Some ([], s)
      else if c = 0x5C then
        (case s of
           [] \<Rightarrow> None
         | e # s1 \<Rightarrow>
             if e = 0x75 then
               (case decode_uXXXX s1 of
                  None \<Rightarrow> None
                | Some (uni, s2) \<Rightarrow>
                    if 0xD800 \<le> uni \<and> uni \<le> 0xDBFF \<and> take 2 s2 = [0x5C, 0x75] then
                      (case decode_uXXXX (drop 2 s2) of
                         None \<Rightarrow> None
                       | Some (uni2, s3) \<Rightarrow>
                           if 0xDC00 \<le> uni2 \<and> uni2 \<le> 0xDFFF
                           then cons_chr (0x10000 + (uni - 0xD800) * 1024 + (uni2 - 0xDC00))
                                  (scanstring s3)
                           else cons_chr uni (scanstring s2))
                    else cons_chr uni (scanstring s2))
             else
               (case backslash e of
                  None \<Rightarrow> None
                | Some ch \<Rightarrow> cons_chr ch (scanstring s1)))
      else if c < 0x20 then None
      else cons_chr c (scanstring s))"
  by pat_completeness auto
termination
proof (relation "measure length")
  fix c s e s1 x uni s2 y uni2 s3
  assume a: "s = e # s1" "decode_uXXXX s1 = Some x" "(uni, s2) = x"
    and b: "decode_uXXXX (drop 2 s2) = Some y" "(uni2, s3) = y"
  from a have "length s2 < length s1" by (auto dest: decode_uXXXX_length)
  moreover from b have "length s3 < length (drop 2 s2)" by (auto dest: decode_uXXXX_length)
  ultimately show "(s3, c # s) \<in> measure length" using a by simp
qed (auto dest: decode_uXXXX_length)

text \<open>
  \<open>NUMBER_RE\<close>: an integer part, then an optional fraction and an optional exponent;
  an absent group is the empty string.
\<close>

definition is_digit :: "nat \<Rightarrow> bool" where
  "is_digit c = (48 \<le> c \<and> c \<le> 57)"

definition match_integer :: "pystr \<Rightarrow> (pystr \<times> pystr) option" where
  "match_integer s =
     (let (sg, t) = (case s of [] \<Rightarrow> ([], s) | c # t \<Rightarrow> if c = 45 then ([45], t) else ([], s))
      in case t of
           [] \<Rightarrow> None
         | d # r \<Rightarrow>
             if d = 48 then Some (sg @ [48], r)
             else if 49 \<le> d \<and> d \<le> 57
             then Some (sg @ d # takeWhile is_digit r, dropWhile is_digit r)
             else None)"

definition match_frac :: "pystr \<Rightarrow> pystr \<times> pystr" where
  "match_frac s =
     (case s of
        c # d # t \<Rightarrow>
          if c = 46 \<and> is_digit d
          then (c # d # takeWhile is_digit t, dropWhile is_digit t)
          else ([], s)
      | _ \<Rightarrow> ([], s))"

definition match_exp :: "pystr \<Rightarrow> pystr \<times> pystr" where
  "match_exp s =
     (case s of
        [] \<Rightarrow> ([], s)
      | c # t \<Rightarrow>
          if c = 101 \<or> c = 69 then
            (let (sg, t1) = (case t of [] \<Rightarrow> ([], t)
                             | g # t' \<Rightarrow> if g = 45 \<or> g = 43 then ([g], t') else ([], t))
             in case t1 of
                  [] \<Rightarrow> ([], s)
                | d # t2 \<Rightarrow>
                    if is_digit d
                    then (c # sg @ d # takeWhile is_digit t2, dropWhile is_digit t2)
                    else ([], s))
          else ([], s))"

definition match_number :: "pystr \<Rightarrow> (pystr \<times> pystr \<times> pystr \<times> pystr) option" where
  "match_number s =
     (case match_integer s of
        None \<Rightarrow> None
      | Some (integer, r1) \<Rightarrow>
          (let (frac, r2) = match_frac r1; (exp, r3) = match_exp r2
           in Some (integer, frac, exp, r3)))"

text \<open>\<open>int(s)\<close> on the integer part of a number.\<close>

definition int_of_digits :: "pystr \<Rightarrow> int" where
  "int_of_digits ds = foldl (\<lambda>a d. a * 10 + int (d - 48)) 0 ds"

definition py_int :: "pystr \<Rightarrow> int" where
  "py_int s = (case s of [] \<Rightarrow> 0 | c # t \<Rightarrow> if c = 45 then - int_of_digits t else int_of_digits s)"

text \<open>
  \<open>dict(pairs)\<close>: a key that comes again keeps its place and takes the new value.
\<close>

fun dict_setitem :: "(pystr \<times> json) list \<Rightarrow> pystr \<Rightarrow> json \<Rightarrow> (pystr \<times> json) list" where
  "dict_setitem [] k v = [(k, v)]"
| "dict_setitem ((k', v') # d) k v =
     (if k' = k then (k, v) # d else (k', v') # dict_setitem d k v)"

definition py_dict :: "(pystr \<times> json) list \<Rightarrow> (pystr \<times> json) list" where
  "py_dict pairs = foldl (\<lambda>d (k, v). dict_setitem d k v) [] pairs"

text \<open>
  \<open>scan_once\<close>, \<open>JSONArray\<close> and \<open>JSONObject\<close>. The first argument bounds the nesting
  of the calls; \<open>json_loads\<close> sets it from the length of the text, which is enough
  (\<open>json_loads_bound_enough\<close> below). \<open>json_array\<close> starts at an element,
  \<open>json_object\<close> after the opening quote of a key. These three are the decoder
  without the limits of the interpreter; \<open>scan_once_lim\<close> below is the decoder with
  them.
\<close>

fun scan_once :: "ext \<Rightarrow> nat \<Rightarrow> pystr \<Rightarrow> (json \<times> pystr) option"
  and json_array :: "ext \<Rightarrow> nat \<Rightarrow> json list \<Rightarrow> pystr \<Rightarrow> (json \<times> pystr) option"
  and json_object :: "ext \<Rightarrow> nat \<Rightarrow> (pystr \<times> json) list \<Rightarrow> pystr \<Rightarrow> (json \<times> pystr) option"
where
  "scan_once X 0 s = None"
| "scan_once X (Suc n) s =
     (case s of
        [] \<Rightarrow> None
      | c # t \<Rightarrow>
          if c = 0x22 then
            (case scanstring t of None \<Rightarrow> None | Some (str, r) \<Rightarrow> Some (JStr str, r))
          else if c = 0x7B then
            (case skip_ws t of
               [] \<Rightarrow> None
             | d # r \<Rightarrow>
                 if d = 0x7D then Some (JDict [], r)
                 else if d = 0x22 then json_object X n [] r
                 else None)
          else if c = 0x5B then
            (case skip_ws t of
               [] \<Rightarrow> None
             | d # r \<Rightarrow>
                 if d = 0x5D then Some (JList [], r)
                 else json_array X n [] (d # r))
          else if c = 0x6E \<and> take 4 s = u ''null'' then Some (JNull, drop 4 s)
          else if c = 0x74 \<and> take 4 s = u ''true'' then Some (JBool True, drop 4 s)
          else if c = 0x66 \<and> take 5 s = u ''false'' then Some (JBool False, drop 5 s)
          else
            (case match_number s of
               Some (integer, frac, exp, r) \<Rightarrow>
                 if frac \<noteq> [] \<or> exp \<noteq> []
                 then Some (JFloat (float_text X (integer @ frac @ exp)), r)
                 else Some (JInt (py_int integer), r)
             | None \<Rightarrow>
                 if c = 0x4E \<and> take 3 s = u ''NaN'' then Some (JFloat (u ''NaN''), drop 3 s)
                 else if c = 0x49 \<and> take 8 s = u ''Infinity''
                 then Some (JFloat (u ''Infinity''), drop 8 s)
                 else if c = 0x2D \<and> take 9 s = u ''-Infinity''
                 then Some (JFloat (u ''-Infinity''), drop 9 s)
                 else None))"
| "json_array X 0 values s = None"
| "json_array X (Suc n) values s =
     (case scan_once X n s of
        None \<Rightarrow> None
      | Some (v, r) \<Rightarrow>
          (case skip_ws r of
             [] \<Rightarrow> None
           | d # r' \<Rightarrow>
               if d = 0x5D then Some (JList (values @ [v]), r')
               else if d = 0x2C then json_array X n (values @ [v]) (skip_ws r')
               else None))"
| "json_object X 0 pairs s = None"
| "json_object X (Suc n) pairs s =
     (case scanstring s of
        None \<Rightarrow> None
      | Some (key, r) \<Rightarrow>
          (case skip_ws r of
             [] \<Rightarrow> None
           | c # r1 \<Rightarrow>
               if c \<noteq> 0x3A then None
               else
                 (case scan_once X n (skip_ws r1) of
                    None \<Rightarrow> None
                  | Some (v, r2) \<Rightarrow>
                      (case skip_ws r2 of
                         [] \<Rightarrow> None
                       | d # r3 \<Rightarrow>
                           if d = 0x7D then Some (JDict (py_dict (pairs @ [(key, v)])), r3)
                           else if d = 0x2C then
                             (case skip_ws r3 of
                                [] \<Rightarrow> None
                              | q # r4 \<Rightarrow>
                                  if q = 0x22 then json_object X n (pairs @ [(key, v)]) r4
                                  else None)
                           else None))))"

text \<open>
  \<open>json.loads(s)\<close> without the limits of the interpreter: a text that starts with a
  byte order mark is refused, white space may stand before and after the one value,
  and nothing else.
\<close>

definition json_loads :: "ext \<Rightarrow> pystr \<Rightarrow> json option" where
  "json_loads X s =
     (if take 1 s = [0xFEFF] then None
      else case scan_once X (Suc (length s)) (skip_ws s) of
             None \<Rightarrow> None
           | Some (v, r) \<Rightarrow> if skip_ws r = [] then Some v else None)"

text \<open>
  The decoder as the interpreter runs it. \<open>scan_once\<close> enters a recursive call
  at every \<open>{\<close> and \<open>[\<close>, before it reads on, and \<open>RecursionError\<close>, which is no
  \<open>ValueError\<close>, is raised when the limit is reached: \<open>d\<close> is the number of arrays
  and objects that can still be entered. \<open>int\<close> raises \<open>ValueError\<close> on an integer
  literal of too many digits. \<open>Refused\<close> is \<open>ValueError\<close>, \<open>TooDeep\<close> is
  \<open>RecursionError\<close>, and \<open>Unfinished\<close> is a bound \<open>n\<close> on the calls that was too
  small, which \<open>json_loads_lim\<close> never meets (\<open>json_loads_lim_finished\<close> below).
\<close>

datatype 'a attempt = Parsed 'a | Refused | TooDeep | Unfinished

definition int_refused :: "ext \<Rightarrow> pystr \<Rightarrow> bool" where
  "int_refused X integer =
     (0 < int_max_str_digits X \<and> int_max_str_digits X < length (filter is_digit integer))"

fun scan_once_lim :: "ext \<Rightarrow> nat \<Rightarrow> nat \<Rightarrow> pystr \<Rightarrow> (json \<times> pystr) attempt"
  and json_array_lim :: "ext \<Rightarrow> nat \<Rightarrow> nat \<Rightarrow> json list \<Rightarrow> pystr \<Rightarrow> (json \<times> pystr) attempt"
  and json_object_lim ::
    "ext \<Rightarrow> nat \<Rightarrow> nat \<Rightarrow> (pystr \<times> json) list \<Rightarrow> pystr \<Rightarrow> (json \<times> pystr) attempt"
where
  "scan_once_lim X 0 d s = Unfinished"
| "scan_once_lim X (Suc n) d s =
     (case s of
        [] \<Rightarrow> Refused
      | c # t \<Rightarrow>
          if c = 0x22 then
            (case scanstring t of None \<Rightarrow> Refused | Some (str, r) \<Rightarrow> Parsed (JStr str, r))
          else if c = 0x7B then
            (case d of
               0 \<Rightarrow> TooDeep
             | Suc d' \<Rightarrow>
                 (case skip_ws t of
                    [] \<Rightarrow> Refused
                  | e # r \<Rightarrow>
                      if e = 0x7D then Parsed (JDict [], r)
                      else if e = 0x22 then json_object_lim X n d' [] r
                      else Refused))
          else if c = 0x5B then
            (case d of
               0 \<Rightarrow> TooDeep
             | Suc d' \<Rightarrow>
                 (case skip_ws t of
                    [] \<Rightarrow> Refused
                  | e # r \<Rightarrow>
                      if e = 0x5D then Parsed (JList [], r)
                      else json_array_lim X n d' [] (e # r)))
          else if c = 0x6E \<and> take 4 s = u ''null'' then Parsed (JNull, drop 4 s)
          else if c = 0x74 \<and> take 4 s = u ''true'' then Parsed (JBool True, drop 4 s)
          else if c = 0x66 \<and> take 5 s = u ''false'' then Parsed (JBool False, drop 5 s)
          else
            (case match_number s of
               Some (integer, frac, exp, r) \<Rightarrow>
                 if frac \<noteq> [] \<or> exp \<noteq> []
                 then Parsed (JFloat (float_text X (integer @ frac @ exp)), r)
                 else if int_refused X integer then Refused
                 else Parsed (JInt (py_int integer), r)
             | None \<Rightarrow>
                 if c = 0x4E \<and> take 3 s = u ''NaN'' then Parsed (JFloat (u ''NaN''), drop 3 s)
                 else if c = 0x49 \<and> take 8 s = u ''Infinity''
                 then Parsed (JFloat (u ''Infinity''), drop 8 s)
                 else if c = 0x2D \<and> take 9 s = u ''-Infinity''
                 then Parsed (JFloat (u ''-Infinity''), drop 9 s)
                 else Refused))"
| "json_array_lim X 0 d values s = Unfinished"
| "json_array_lim X (Suc n) d values s =
     (case scan_once_lim X n d s of
        Parsed (v, r) \<Rightarrow>
          (case skip_ws r of
             [] \<Rightarrow> Refused
           | e # r' \<Rightarrow>
               if e = 0x5D then Parsed (JList (values @ [v]), r')
               else if e = 0x2C then json_array_lim X n d (values @ [v]) (skip_ws r')
               else Refused)
      | Refused \<Rightarrow> Refused
      | TooDeep \<Rightarrow> TooDeep
      | Unfinished \<Rightarrow> Unfinished)"
| "json_object_lim X 0 d pairs s = Unfinished"
| "json_object_lim X (Suc n) d pairs s =
     (case scanstring s of
        None \<Rightarrow> Refused
      | Some (key, r) \<Rightarrow>
          (case skip_ws r of
             [] \<Rightarrow> Refused
           | c # r1 \<Rightarrow>
               if c \<noteq> 0x3A then Refused
               else
                 (case scan_once_lim X n d (skip_ws r1) of
                    Parsed (v, r2) \<Rightarrow>
                      (case skip_ws r2 of
                         [] \<Rightarrow> Refused
                       | e # r3 \<Rightarrow>
                           if e = 0x7D then Parsed (JDict (py_dict (pairs @ [(key, v)])), r3)
                           else if e = 0x2C then
                             (case skip_ws r3 of
                                [] \<Rightarrow> Refused
                              | q # r4 \<Rightarrow>
                                  if q = 0x22 then json_object_lim X n d (pairs @ [(key, v)]) r4
                                  else Refused)
                           else Refused)
                  | Refused \<Rightarrow> Refused
                  | TooDeep \<Rightarrow> TooDeep
                  | Unfinished \<Rightarrow> Unfinished)))"

definition json_loads_lim :: "ext \<Rightarrow> pystr \<Rightarrow> json attempt" where
  "json_loads_lim X s =
     (if take 1 s = [0xFEFF] then Refused
      else case scan_once_lim X (Suc (length s + length s)) (decoder_depth X) (skip_ws s) of
             Parsed (v, r) \<Rightarrow> if skip_ws r = [] then Parsed v else Refused
           | Refused \<Rightarrow> Refused
           | TooDeep \<Rightarrow> TooDeep
           | Unfinished \<Rightarrow> Unfinished)"

text \<open>
  \<open>json.dumps\<close> enters a call at every array and object too, the empty ones
  included: \<open>nesting\<close> is the number of arrays and objects inside one another.
\<close>

fun nesting :: "json \<Rightarrow> nat" where
  "nesting (JList xs) = Suc (fold max (map nesting xs) 0)"
| "nesting (JDict kvs) = Suc (fold max (map (\<lambda>kv. nesting (snd kv)) kvs) 0)"
| "nesting _ = 0"


subsection \<open>The bound on the calls is enough\<close>

lemma scan_once_step_mono:
  assumes "\<And>acc s w q. json_array X n acc s = Some (w, q) \<Longrightarrow> json_array X m acc s = Some (w, q)"
    and "\<And>pairs s w q. json_object X n pairs s = Some (w, q) \<Longrightarrow> json_object X m pairs s = Some (w, q)"
    and "scan_once X (Suc n) s = Some (w, q)"
  shows "scan_once X (Suc m) s = Some (w, q)"
proof (cases s)
  case Nil
  with assms(3) show ?thesis by simp
next
  case (Cons c t)
  consider "c = 0x7B" | "c = 0x5B" | "c \<noteq> 0x7B" "c \<noteq> 0x5B" by blast
  then show ?thesis
  proof cases
    case 1
    with assms(2,3) Cons show ?thesis
      by (auto split: list.splits if_splits)
  next
    case 2
    with assms(1,3) Cons show ?thesis
      by (auto split: list.splits if_splits)
  next
    case 3
    with Cons have "scan_once X (Suc m) s = scan_once X (Suc n) s"
      by simp
    with assms(3) show ?thesis
      by simp
  qed
qed

lemma json_array_step_mono:
  assumes "\<And>s w q. scan_once X n s = Some (w, q) \<Longrightarrow> scan_once X m s = Some (w, q)"
    and "\<And>acc s w q. json_array X n acc s = Some (w, q) \<Longrightarrow> json_array X m acc s = Some (w, q)"
    and "json_array X (Suc n) acc s = Some (w, q)"
  shows "json_array X (Suc m) acc s = Some (w, q)"
proof -
  from assms(3) obtain v r where s: "scan_once X n s = Some (v, r)"
    by (auto split: option.splits)
  then have s': "scan_once X m s = Some (v, r)" by (rule assms(1))
  from assms(3) s assms(2) show ?thesis
    by (auto simp: s' split: list.splits if_splits)
qed

lemma json_object_step_mono:
  assumes "\<And>s w q. scan_once X n s = Some (w, q) \<Longrightarrow> scan_once X m s = Some (w, q)"
    and "\<And>pairs s w q. json_object X n pairs s = Some (w, q) \<Longrightarrow> json_object X m pairs s = Some (w, q)"
    and "json_object X (Suc n) pairs s = Some (w, q)"
  shows "json_object X (Suc m) pairs s = Some (w, q)"
proof -
  from assms(3) obtain key r where k: "scanstring s = Some (key, r)"
    by (auto split: option.splits)
  with assms(3) obtain r1 where c: "skip_ws r = 0x3A # r1"
    by (auto split: list.splits if_splits)
  with assms(3) k obtain v r2 where s: "scan_once X n (skip_ws r1) = Some (v, r2)"
    by (auto split: option.splits)
  then have s': "scan_once X m (skip_ws r1) = Some (v, r2)" by (rule assms(1))
  from assms(3) k c s assms(2) show ?thesis
    by (auto simp: s' split: list.splits if_splits)
qed

lemma fuel_mono_all:
  "n \<le> m \<Longrightarrow>
   (\<forall>s w q. scan_once X n s = Some (w, q) \<longrightarrow> scan_once X m s = Some (w, q))
   \<and> (\<forall>acc s w q. json_array X n acc s = Some (w, q) \<longrightarrow> json_array X m acc s = Some (w, q))
   \<and> (\<forall>pairs s w q. json_object X n pairs s = Some (w, q)
          \<longrightarrow> json_object X m pairs s = Some (w, q))"
proof (induction n arbitrary: m)
  case 0
  then show ?case by simp
next
  case (Suc n)
  then obtain m' where m: "m = Suc m'" and le: "n \<le> m'"
    by (cases m) auto
  note ih = Suc.IH [OF le]
  show ?case
    unfolding m
    by (intro conjI allI impI)
      (blast intro: scan_once_step_mono json_array_step_mono json_object_step_mono
        ih [THEN conjunct1, rule_format] ih [THEN conjunct2, THEN conjunct1, rule_format]
        ih [THEN conjunct2, THEN conjunct2, rule_format])+
qed

lemma length_skip_ws: "length (skip_ws s) \<le> length s"
  by (simp add: skip_ws_def length_dropWhile_le)

lemma cons_chr_Some:
  "cons_chr c res = Some (str, r) \<Longrightarrow> \<exists>str'. res = Some (str', r)"
  by (cases res) (auto simp: cons_chr_def)

lemma scanstring_shorter: "scanstring s = Some (str, r) \<Longrightarrow> length r < length s"
proof (induction s arbitrary: str rule: length_induct)
  case (1 s)
  show ?case
  proof (cases s)
    case Nil
    with "1.prems" show ?thesis by simp
  next
    case (Cons c t)
    note ih = "1.IH" [rule_format]
    consider "c = 0x22" | "c = 0x5C" | "c \<noteq> 0x22" "c \<noteq> 0x5C" by blast
    then show ?thesis
    proof cases
      case 1
      with "1.prems" Cons show ?thesis by simp
    next
      case 3
      with "1.prems" Cons obtain str' where "scanstring t = Some (str', r)"
        by (auto split: if_splits dest: cons_chr_Some)
      with ih [of t str'] Cons show ?thesis by simp
    next
      case 2
      show ?thesis
      proof (cases t)
        case Nil
        with "1.prems" Cons 2 show ?thesis by simp
      next
        case t: (Cons e s1)
        show ?thesis
        proof (cases "e = 0x75")
          case False
          with "1.prems" Cons 2 t obtain str' where "scanstring s1 = Some (str', r)"
            by (auto split: option.splits dest: cons_chr_Some)
          with ih [of s1 str'] Cons t show ?thesis by simp
        next
          case True
          with "1.prems" Cons 2 t obtain uni s2 where d: "decode_uXXXX s1 = Some (uni, s2)"
            by (auto split: option.splits)
          then have l2: "length s2 < length s1" by (rule decode_uXXXX_length)
          from "1.prems" Cons 2 t True d
          have x: "(if 0xD800 \<le> uni \<and> uni \<le> 0xDBFF \<and> take 2 s2 = [0x5C, 0x75] then
                      (case decode_uXXXX (drop 2 s2) of
                         None \<Rightarrow> None
                       | Some (uni2, s3) \<Rightarrow>
                           if 0xDC00 \<le> uni2 \<and> uni2 \<le> 0xDFFF
                           then cons_chr (0x10000 + (uni - 0xD800) * 1024 + (uni2 - 0xDC00))
                                  (scanstring s3)
                           else cons_chr uni (scanstring s2))
                    else cons_chr uni (scanstring s2)) = Some (str, r)"
            by simp
          have lone: ?thesis if "cons_chr uni (scanstring s2) = Some (str, r)"
          proof -
            from that obtain str' where "scanstring s2 = Some (str', r)"
              by (blast dest: cons_chr_Some)
            with ih [of s2 str'] l2 Cons t show ?thesis by simp
          qed
          show ?thesis
          proof (cases "0xD800 \<le> uni \<and> uni \<le> 0xDBFF \<and> take 2 s2 = [0x5C, 0x75]")
            case False
            with x show ?thesis by (simp add: lone)
          next
            case hi: True
            with x obtain uni2 s3 where d2: "decode_uXXXX (drop 2 s2) = Some (uni2, s3)"
              by (auto split: option.splits)
            from decode_uXXXX_length [OF d2] have l3: "length s3 < length s2" by simp
            show ?thesis
            proof (cases "0xDC00 \<le> uni2 \<and> uni2 \<le> 0xDFFF")
              case False
              with x hi d2 show ?thesis by (simp add: lone)
            next
              case True
              with x hi d2 obtain str' where "scanstring s3 = Some (str', r)"
                by (auto dest: cons_chr_Some)
              with ih [of s3 str'] l2 l3 Cons t show ?thesis by simp
            qed
          qed
        qed
      qed
    qed
  qed
qed

lemma match_number_shorter:
  assumes "match_number s = Some (integer, frac, exp, r)"
  shows "length r < length s"
proof -
  from assms obtain r1 r2 where
    i: "match_integer s = Some (integer, r1)" and f: "match_frac r1 = (frac, r2)"
    and e: "match_exp r2 = (exp, r)"
    by (auto simp: match_number_def split: option.splits prod.splits)
  have "length r1 < length s"
    using i
    by (cases s; cases "tl s")
      (auto simp: match_integer_def length_dropWhile_le less_Suc_eq_le le_SucI split: if_splits)
  moreover have "length r2 \<le> length r1"
    using f
    by (cases r1; cases "tl r1")
      (auto simp: match_frac_def length_dropWhile_le le_SucI split: if_splits)
  moreover have "length r \<le> length r2"
    using e
    by (cases r2; cases "tl r2"; cases "tl (tl r2)")
      (auto simp: match_exp_def length_dropWhile_le le_SucI split: if_splits)
  ultimately show ?thesis by simp
qed

lemma skip_ws_Cons_length: "skip_ws t = d # r \<Longrightarrow> length r < length t"
  using length_skip_ws [of t] by simp

lemma fuel_mono:
  assumes "n \<le> m"
  shows "scan_once X n s = Some (w, q) \<Longrightarrow> scan_once X m s = Some (w, q)"
    and "json_array X n acc s = Some (w, q) \<Longrightarrow> json_array X m acc s = Some (w, q)"
    and "json_object X n pairs s = Some (w, q) \<Longrightarrow> json_object X m pairs s = Some (w, q)"
  using fuel_mono_all [OF assms, of X] by blast+

lemma scan_once_step_bound:
  assumes ih_a: "\<And>acc s w q. json_array X n acc s = Some (w, q)
            \<Longrightarrow> length q < length s \<and> json_array X (length s - length q) acc s = Some (w, q)"
    and ih_o: "\<And>pairs s w q. json_object X n pairs s = Some (w, q)
            \<Longrightarrow> length q < length s \<and> json_object X (length s - length q) pairs s = Some (w, q)"
    and run: "scan_once X (Suc n) s = Some (w, q)"
  shows "length q < length s \<and> scan_once X (length s - length q) s = Some (w, q)"
proof (cases s)
  case Nil
  with run show ?thesis by simp
next
  case (Cons c t)
  consider (obj) "c = 0x7B" | (arr) "c = 0x5B" | (other) "c \<noteq> 0x7B" "c \<noteq> 0x5B" by blast
  then show ?thesis
  proof cases
    case other
    have same: "scan_once X (Suc k) s = scan_once X (Suc n) s" for k
      using Cons other by simp
    have len: "length q < length s"
    proof (cases "c = 0x22")
      case True
      with run Cons obtain str where "scanstring t = Some (str, q)"
        by (auto split: option.splits)
      from scanstring_shorter [OF this] Cons show ?thesis by simp
    next
      case False
      show ?thesis
      proof (cases "match_number s")
        case None
        with run Cons other False show ?thesis
          by (auto split: if_splits)
      next
        case (Some y)
        obtain i f e r where y: "y = (i, f, e, r)" by (cases y)
        from match_number_shorter [of s i f e r] Some y have "length r < length s" by simp
        with run Cons other False Some y show ?thesis
          by (auto split: if_splits)
      qed
    qed
    then obtain k where "length s - length q = Suc k"
      by (cases "length s - length q") auto
    with same [of k] run len show ?thesis by simp
  next
    case obj
    with run Cons obtain d r where sk: "skip_ws t = d # r"
      by (auto split: list.splits)
    from skip_ws_Cons_length [OF sk] Cons have lr: "Suc (Suc (length r)) \<le> length s" by simp
    show ?thesis
    proof (cases "d = 0x7D")
      case True
      with run Cons obj sk have wq: "w = JDict []" "q = r" by simp_all
      with lr obtain k where "length s - length q = Suc k"
        by (cases "length s - length q") auto
      with wq lr Cons obj sk True show ?thesis by simp
    next
      case False
      with run Cons obj sk have d: "d = 0x22" and o: "json_object X n [] r = Some (w, q)"
        by (auto split: if_splits)
      from ih_o [OF o] have lq: "length q < length r"
        and b: "json_object X (length r - length q) [] r = Some (w, q)"
        by simp_all
      from lq lr obtain k where k: "length s - length q = Suc k" "length r - length q \<le> k"
        by (cases "length s - length q") auto
      from fuel_mono(3) [OF k(2) b] have "json_object X k [] r = Some (w, q)" .
      with k lq lr Cons obj sk d show ?thesis by simp
    qed
  next
    case arr
    with run Cons obtain d r where sk: "skip_ws t = d # r"
      by (auto split: list.splits)
    from skip_ws_Cons_length [OF sk] Cons have lr: "Suc (Suc (length r)) \<le> length s" by simp
    show ?thesis
    proof (cases "d = 0x5D")
      case True
      with run Cons arr sk have wq: "w = JList []" "q = r" by simp_all
      with lr obtain k where "length s - length q = Suc k"
        by (cases "length s - length q") auto
      with wq lr Cons arr sk True show ?thesis by simp
    next
      case False
      with run Cons arr sk have o: "json_array X n [] (d # r) = Some (w, q)"
        by simp
      from ih_a [OF o] have lq: "length q < length (d # r)"
        and b: "json_array X (length (d # r) - length q) [] (d # r) = Some (w, q)"
        by simp_all
      from lq lr obtain k where k: "length s - length q = Suc k" "length (d # r) - length q \<le> k"
        by (cases "length s - length q") auto
      from fuel_mono(2) [OF k(2) b] have "json_array X k [] (d # r) = Some (w, q)" .
      with k lq lr Cons arr sk False show ?thesis by simp
    qed
  qed
qed


lemma json_array_step_bound:
  assumes ih_s: "\<And>s w q. scan_once X n s = Some (w, q)
            \<Longrightarrow> length q < length s \<and> scan_once X (length s - length q) s = Some (w, q)"
    and ih_a: "\<And>acc s w q. json_array X n acc s = Some (w, q)
            \<Longrightarrow> length q < length s \<and> json_array X (length s - length q) acc s = Some (w, q)"
    and run: "json_array X (Suc n) acc s = Some (w, q)"
  shows "length q < length s \<and> json_array X (length s - length q) acc s = Some (w, q)"
proof -
  from run obtain v r where so: "scan_once X n s = Some (v, r)"
    by (auto split: option.splits)
  from ih_s [OF so] have lr: "length r < length s"
    and bs: "scan_once X (length s - length r) s = Some (v, r)"
    by simp_all
  from run so obtain d r' where sk: "skip_ws r = d # r'"
    by (auto split: list.splits)
  from skip_ws_Cons_length [OF sk] have lr': "length r' < length r" .
  show ?thesis
  proof (cases "d = 0x5D")
    case True
    with run so sk have wq: "w = JList (acc @ [v])" "q = r'" by simp_all
    with lr lr' obtain k where k: "length s - length q = Suc k" "length s - length r \<le> k"
      by (cases "length s - length q") auto
    from fuel_mono(1) [OF k(2) bs] have "scan_once X k s = Some (v, r)" .
    with k wq lr lr' sk True show ?thesis by simp
  next
    case False
    with run so sk have d: "d = 0x2C"
      and a: "json_array X n (acc @ [v]) (skip_ws r') = Some (w, q)"
      by (auto split: if_splits)
    from ih_a [OF a] have lq: "length q < length (skip_ws r')"
      and ba: "json_array X (length (skip_ws r') - length q) (acc @ [v]) (skip_ws r') = Some (w, q)"
      by simp_all
    from lq lr lr' length_skip_ws [of r'] obtain k where
      k: "length s - length q = Suc k" "length s - length r \<le> k"
        "length (skip_ws r') - length q \<le> k"
      by (cases "length s - length q") auto
    from fuel_mono(1) [OF k(2) bs] have "scan_once X k s = Some (v, r)" .
    moreover from fuel_mono(2) [OF k(3) ba]
    have "json_array X k (acc @ [v]) (skip_ws r') = Some (w, q)" .
    ultimately show ?thesis
      using k lq lr lr' length_skip_ws [of r'] sk d by simp
  qed
qed

lemma json_object_step_bound:
  assumes ih_s: "\<And>s w q. scan_once X n s = Some (w, q)
            \<Longrightarrow> length q < length s \<and> scan_once X (length s - length q) s = Some (w, q)"
    and ih_o: "\<And>pairs s w q. json_object X n pairs s = Some (w, q)
            \<Longrightarrow> length q < length s \<and> json_object X (length s - length q) pairs s = Some (w, q)"
    and run: "json_object X (Suc n) pairs s = Some (w, q)"
  shows "length q < length s \<and> json_object X (length s - length q) pairs s = Some (w, q)"
proof -
  from run obtain key r where ss: "scanstring s = Some (key, r)"
    by (auto split: option.splits)
  from scanstring_shorter [OF ss] have l0: "length r < length s" .
  from run ss obtain r1 where c: "skip_ws r = 0x3A # r1"
    by (auto split: list.splits if_splits)
  from skip_ws_Cons_length [OF c] have l1: "length r1 < length r" .
  from run ss c obtain v r2 where so: "scan_once X n (skip_ws r1) = Some (v, r2)"
    by (auto split: option.splits)
  from ih_s [OF so] have l2: "length r2 < length (skip_ws r1)"
    and bs: "scan_once X (length (skip_ws r1) - length r2) (skip_ws r1) = Some (v, r2)"
    by simp_all
  from run ss c so obtain d r3 where sk: "skip_ws r2 = d # r3"
    by (auto split: list.splits)
  from skip_ws_Cons_length [OF sk] have l3: "length r3 < length r2" .
  note ls = l0 l1 l2 l3 length_skip_ws [of r1]
  show ?thesis
  proof (cases "d = 0x7D")
    case True
    with run ss c so sk have wq: "w = JDict (py_dict (pairs @ [(key, v)]))" "q = r3"
      by simp_all
    with ls obtain k where k: "length s - length q = Suc k"
      "length (skip_ws r1) - length r2 \<le> k"
      by (cases "length s - length q") auto
    from fuel_mono(1) [OF k(2) bs] have "scan_once X k (skip_ws r1) = Some (v, r2)" .
    with k wq ls ss c sk True show ?thesis by simp
  next
    case False
    with run ss c so sk have d: "d = 0x2C"
      by (auto split: if_splits)
    with run ss c so sk obtain r4 where q4: "skip_ws r3 = 0x22 # r4"
      by (auto split: list.splits if_splits)
    with run ss c so sk d have o: "json_object X n (pairs @ [(key, v)]) r4 = Some (w, q)"
      by simp
    from skip_ws_Cons_length [OF q4] have l4: "length r4 < length r3" .
    from ih_o [OF o] have lq: "length q < length r4"
      and bo: "json_object X (length r4 - length q) (pairs @ [(key, v)]) r4 = Some (w, q)"
      by simp_all
    from ls l4 lq obtain k where k: "length s - length q = Suc k"
      "length (skip_ws r1) - length r2 \<le> k" "length r4 - length q \<le> k"
      by (cases "length s - length q") auto
    from fuel_mono(1) [OF k(2) bs] have "scan_once X k (skip_ws r1) = Some (v, r2)" .
    moreover from fuel_mono(3) [OF k(3) bo]
    have "json_object X k (pairs @ [(key, v)]) r4 = Some (w, q)" .
    ultimately show ?thesis
      using k ls l4 lq ss c sk d q4 by simp
  qed
qed

lemma fuel_bound_all:
  "(\<forall>s w q. scan_once X n s = Some (w, q)
      \<longrightarrow> length q < length s \<and> scan_once X (length s - length q) s = Some (w, q))
   \<and> (\<forall>acc s w q. json_array X n acc s = Some (w, q)
      \<longrightarrow> length q < length s \<and> json_array X (length s - length q) acc s = Some (w, q))
   \<and> (\<forall>pairs s w q. json_object X n pairs s = Some (w, q)
      \<longrightarrow> length q < length s \<and> json_object X (length s - length q) pairs s = Some (w, q))"
proof (induction n)
  case 0
  then show ?case by simp
next
  case (Suc n)
  have ih_s: "length q < length s \<and> scan_once X (length s - length q) s = Some (w, q)"
    if "scan_once X n s = Some (w, q)" for s w q
    using Suc that by blast
  have ih_a: "length q < length s \<and> json_array X (length s - length q) acc s = Some (w, q)"
    if "json_array X n acc s = Some (w, q)" for acc s w q
    using Suc that by blast
  have ih_o: "length q < length s \<and> json_object X (length s - length q) pairs s = Some (w, q)"
    if "json_object X n pairs s = Some (w, q)" for pairs s w q
    using Suc that by blast
  show ?case
  proof (intro conjI allI impI)
    fix s w q
    assume "scan_once X (Suc n) s = Some (w, q)"
    from scan_once_step_bound [OF ih_a ih_o this]
    show "length q < length s" and "scan_once X (length s - length q) s = Some (w, q)"
      by simp_all
  next
    fix acc s w q
    assume "json_array X (Suc n) acc s = Some (w, q)"
    from json_array_step_bound [OF ih_s ih_a this]
    show "length q < length s" and "json_array X (length s - length q) acc s = Some (w, q)"
      by simp_all
  next
    fix pairs s w q
    assume "json_object X (Suc n) pairs s = Some (w, q)"
    from json_object_step_bound [OF ih_s ih_o this]
    show "length q < length s" and "json_object X (length s - length q) pairs s = Some (w, q)"
      by simp_all
  qed
qed

text \<open>
  A value that \<open>scan_once\<close> finds with some bound on the calls is found with the
  bound \<open>json_loads\<close> sets, and no larger bound finds more: \<open>None\<close> from
  \<open>json_loads\<close> is a text that the decoder refuses.
\<close>

lemma json_loads_bound_enough:
  assumes "take 1 s \<noteq> [0xFEFF]" and "scan_once X n (skip_ws s) = Some (v, r)"
    and "skip_ws r = []"
  shows "json_loads X s = Some v"
proof -
  from fuel_bound_all [of X n] assms(2)
  have "scan_once X (length (skip_ws s) - length r) (skip_ws s) = Some (v, r)"
    by blast
  moreover have "length (skip_ws s) - length r \<le> Suc (length s)"
    using length_skip_ws [of s] by simp
  ultimately have "scan_once X (Suc (length s)) (skip_ws s) = Some (v, r)"
    by (rule fuel_mono(1) [rotated])
  with assms(1,3) show ?thesis
    by (simp add: json_loads_def)
qed

lemma json_loads_None_iff:
  "json_loads X s = None
   \<longleftrightarrow> take 1 s = [0xFEFF]
       \<or> (\<forall>n. case scan_once X n (skip_ws s) of None \<Rightarrow> True | Some (v, r) \<Rightarrow> skip_ws r \<noteq> [])"
proof
  assume a: "json_loads X s = None"
  show "take 1 s = [0xFEFF]
        \<or> (\<forall>n. case scan_once X n (skip_ws s) of None \<Rightarrow> True | Some (v, r) \<Rightarrow> skip_ws r \<noteq> [])"
  proof (rule disjCI)
    assume "\<not> (\<forall>n. case scan_once X n (skip_ws s) of None \<Rightarrow> True
                    | Some (v, r) \<Rightarrow> skip_ws r \<noteq> [])"
    then obtain n v r where "scan_once X n (skip_ws s) = Some (v, r)" "skip_ws r = []"
      by (auto split: option.splits)
    with a json_loads_bound_enough [of s X n v r] show "take 1 s = [0xFEFF]"
      by auto
  qed
next
  assume "take 1 s = [0xFEFF]
          \<or> (\<forall>n. case scan_once X n (skip_ws s) of None \<Rightarrow> True | Some (v, r) \<Rightarrow> skip_ws r \<noteq> [])"
  then show "json_loads X s = None"
  proof
    assume "take 1 s = [0xFEFF]"
    then show ?thesis by (simp add: json_loads_def)
  next
    assume "\<forall>n. case scan_once X n (skip_ws s) of None \<Rightarrow> True | Some (v, r) \<Rightarrow> skip_ws r \<noteq> []"
    then have "case scan_once X (Suc (length s)) (skip_ws s) of None \<Rightarrow> True
               | Some (v, r) \<Rightarrow> skip_ws r \<noteq> []"
      by blast
    then show ?thesis
      by (auto simp: json_loads_def split: option.splits)
  qed
qed

subsection \<open>The decoder with the limits of the interpreter\<close>

text \<open>What the decoder with the limits finds, the decoder without them finds too.\<close>

lemma scan_once_lim_step_sound:
  assumes ih_a: "\<And>d acc s w q. json_array_lim X n d acc s = Parsed (w, q)
            \<Longrightarrow> json_array X n acc s = Some (w, q)"
    and ih_o: "\<And>d pairs s w q. json_object_lim X n d pairs s = Parsed (w, q)
            \<Longrightarrow> json_object X n pairs s = Some (w, q)"
    and run: "scan_once_lim X (Suc n) d s = Parsed (w, q)"
  shows "scan_once X (Suc n) s = Some (w, q)"
proof (cases s)
  case Nil
  with run show ?thesis by simp
next
  case (Cons c t)
  consider "c = 0x7B" | "c = 0x5B" | "c \<noteq> 0x7B" "c \<noteq> 0x5B" by blast
  then show ?thesis
  proof cases
    case 1
    with run Cons obtain d' where d: "d = Suc d'"
      by (cases d) auto
    show ?thesis
    proof (cases "skip_ws t")
      case Nil
      with run Cons 1 d show ?thesis by simp
    next
      case sk: (Cons e r)
      with run Cons 1 d ih_o [of d' "[]" r w q] show ?thesis
        by (auto split: if_splits)
    qed
  next
    case 2
    with run Cons obtain d' where d: "d = Suc d'"
      by (cases d) auto
    show ?thesis
    proof (cases "skip_ws t")
      case Nil
      with run Cons 2 d show ?thesis by simp
    next
      case sk: (Cons e r)
      with run Cons 2 d ih_a [of d' "[]" "e # r" w q] show ?thesis
        by (auto split: if_splits)
    qed
  next
    case 3
    show ?thesis
    proof (cases "c = 0x22")
      case True
      with run Cons show ?thesis
        by (auto split: option.splits)
    next
      case False
      show ?thesis
      proof (cases "match_number s")
        case None
        with run Cons 3 False show ?thesis
          by (simp split: if_splits)
      next
        case (Some m)
        obtain integer frac exp r where m: "m = (integer, frac, exp, r)"
          by (cases m) auto
        with run Cons 3 False Some show ?thesis
          by (auto split: if_splits)
      qed
    qed
  qed
qed

lemma json_array_lim_step_sound:
  assumes ih_s: "\<And>d s w q. scan_once_lim X n d s = Parsed (w, q)
            \<Longrightarrow> scan_once X n s = Some (w, q)"
    and ih_a: "\<And>d acc s w q. json_array_lim X n d acc s = Parsed (w, q)
            \<Longrightarrow> json_array X n acc s = Some (w, q)"
    and run: "json_array_lim X (Suc n) d acc s = Parsed (w, q)"
  shows "json_array X (Suc n) acc s = Some (w, q)"
proof -
  from run obtain v r where s: "scan_once_lim X n d s = Parsed (v, r)"
    by (auto split: attempt.splits)
  then have s': "scan_once X n s = Some (v, r)" by (rule ih_s)
  show ?thesis
  proof (cases "skip_ws r")
    case Nil
    with run s show ?thesis by simp
  next
    case (Cons e r')
    with run s s' ih_a [of d "acc @ [v]" "skip_ws r'" w q] show ?thesis
      by (auto split: if_splits)
  qed
qed

lemma json_object_lim_step_sound:
  assumes ih_s: "\<And>d s w q. scan_once_lim X n d s = Parsed (w, q)
            \<Longrightarrow> scan_once X n s = Some (w, q)"
    and ih_o: "\<And>d pairs s w q. json_object_lim X n d pairs s = Parsed (w, q)
            \<Longrightarrow> json_object X n pairs s = Some (w, q)"
    and run: "json_object_lim X (Suc n) d pairs s = Parsed (w, q)"
  shows "json_object X (Suc n) pairs s = Some (w, q)"
proof -
  from run obtain key r where k: "scanstring s = Some (key, r)"
    by (auto split: option.splits)
  with run obtain r1 where c: "skip_ws r = 0x3A # r1"
    by (auto split: list.splits if_splits)
  with run k obtain v r2 where s: "scan_once_lim X n d (skip_ws r1) = Parsed (v, r2)"
    by (auto split: attempt.splits)
  then have s': "scan_once X n (skip_ws r1) = Some (v, r2)" by (rule ih_s)
  show ?thesis
  proof (cases "skip_ws r2")
    case Nil
    with run k c s show ?thesis by simp
  next
    case r2: (Cons e r3)
    show ?thesis
    proof (cases "skip_ws r3")
      case Nil
      with run k c s s' r2 show ?thesis
        by (auto split: if_splits)
    next
      case (Cons g r4)
      with run k c s s' r2 ih_o [of d "pairs @ [(key, v)]" r4 w q] show ?thesis
        by (auto split: if_splits)
    qed
  qed
qed

lemma lim_sound_all:
  "(\<forall>d s w q. scan_once_lim X n d s = Parsed (w, q) \<longrightarrow> scan_once X n s = Some (w, q))
   \<and> (\<forall>d acc s w q. json_array_lim X n d acc s = Parsed (w, q)
        \<longrightarrow> json_array X n acc s = Some (w, q))
   \<and> (\<forall>d pairs s w q. json_object_lim X n d pairs s = Parsed (w, q)
        \<longrightarrow> json_object X n pairs s = Some (w, q))"
proof (induction n)
  case 0
  then show ?case by simp
next
  case (Suc n)
  have ih_s: "scan_once X n s = Some (w, q)"
    if "scan_once_lim X n d s = Parsed (w, q)" for d s w q
    using Suc that by blast
  have ih_a: "json_array X n acc s = Some (w, q)"
    if "json_array_lim X n d acc s = Parsed (w, q)" for d acc s w q
    using Suc that by blast
  have ih_o: "json_object X n pairs s = Some (w, q)"
    if "json_object_lim X n d pairs s = Parsed (w, q)" for d pairs s w q
    using Suc that by blast
  show ?case
    by (intro conjI allI impI)
      (erule scan_once_lim_step_sound [OF ih_a ih_o, rotated 2]
       | erule json_array_lim_step_sound [OF ih_s ih_a, rotated 2]
       | erule json_object_lim_step_sound [OF ih_s ih_o, rotated 2] | assumption)+
qed

lemma scan_once_lim_sound:
  "scan_once_lim X n d s = Parsed (w, q) \<Longrightarrow> scan_once X n s = Some (w, q)"
  using lim_sound_all [of X n] by blast

lemma scan_once_lim_shorter:
  assumes "scan_once_lim X n d s = Parsed (w, q)"
  shows "length q < length s"
  using fuel_bound_all [of X n] scan_once_lim_sound [OF assms] by blast

text \<open>The bound on the calls that \<open>json_loads_lim\<close> sets is never met.\<close>

lemma scan_once_lim_step_finished:
  assumes ih_a: "\<And>d acc s. 2 * length s + 2 \<le> n \<Longrightarrow> json_array_lim X n d acc s \<noteq> Unfinished"
    and ih_o: "\<And>d pairs s. 2 * length s + 2 \<le> n \<Longrightarrow> json_object_lim X n d pairs s \<noteq> Unfinished"
    and n: "2 * length s + 1 \<le> Suc n"
  shows "scan_once_lim X (Suc n) d s \<noteq> Unfinished"
proof (cases s)
  case Nil
  then show ?thesis by simp
next
  case (Cons c t)
  consider "c = 0x7B" | "c = 0x5B" | "c \<noteq> 0x7B" "c \<noteq> 0x5B" by blast
  then show ?thesis
  proof cases
    case 1
    show ?thesis
    proof (cases d)
      case 0
      with Cons 1 show ?thesis by simp
    next
      case (Suc d')
      show ?thesis
      proof (cases "skip_ws t")
        case Nil
        with Cons 1 Suc show ?thesis by simp
      next
        case sk: (Cons e r)
        from skip_ws_Cons_length [OF sk] Cons n have "2 * length r + 2 \<le> n" by simp
        from ih_o [OF this, of d' "[]"] Cons 1 Suc sk show ?thesis by simp
      qed
    qed
  next
    case 2
    show ?thesis
    proof (cases d)
      case 0
      with Cons 2 show ?thesis by simp
    next
      case (Suc d')
      show ?thesis
      proof (cases "skip_ws t")
        case Nil
        with Cons 2 Suc show ?thesis by simp
      next
        case sk: (Cons e r)
        from skip_ws_Cons_length [OF sk] Cons n have "2 * length (e # r) + 2 \<le> n" by simp
        from ih_a [OF this, of d' "[]"] Cons 2 Suc sk show ?thesis by simp
      qed
    qed
  next
    case 3
    with Cons show ?thesis
      by (simp split: option.splits)
  qed
qed

lemma json_array_lim_step_finished:
  assumes ih_s: "\<And>d s. 2 * length s + 1 \<le> n \<Longrightarrow> scan_once_lim X n d s \<noteq> Unfinished"
    and ih_a: "\<And>d acc s. 2 * length s + 2 \<le> n \<Longrightarrow> json_array_lim X n d acc s \<noteq> Unfinished"
    and n: "2 * length s + 2 \<le> Suc n"
  shows "json_array_lim X (Suc n) d acc s \<noteq> Unfinished"
proof (cases "scan_once_lim X n d s")
  case (Parsed p)
  obtain v r where p: "p = (v, r)" by (cases p) auto
  from Parsed p have l: "length r < length s" by (simp add: scan_once_lim_shorter)
  show ?thesis
  proof (cases "skip_ws r")
    case Nil
    with Parsed p show ?thesis by simp
  next
    case (Cons e r')
    from skip_ws_Cons_length [OF Cons] l length_skip_ws [of r'] n
    have "2 * length (skip_ws r') + 2 \<le> n" by simp
    from ih_a [OF this, of d "acc @ [v]"] Parsed p Cons show ?thesis by simp
  qed
next
  case Unfinished
  with ih_s [of s d] n show ?thesis by simp
qed simp_all

lemma json_object_lim_step_finished:
  assumes ih_s: "\<And>d s. 2 * length s + 1 \<le> n \<Longrightarrow> scan_once_lim X n d s \<noteq> Unfinished"
    and ih_o: "\<And>d pairs s. 2 * length s + 2 \<le> n \<Longrightarrow> json_object_lim X n d pairs s \<noteq> Unfinished"
    and n: "2 * length s + 2 \<le> Suc n"
  shows "json_object_lim X (Suc n) d pairs s \<noteq> Unfinished"
proof (cases "scanstring s")
  case None
  then show ?thesis by simp
next
  case (Some k)
  obtain key r where k: "k = (key, r)" by (cases k) auto
  from Some k have lr: "length r < length s" by (simp add: scanstring_shorter)
  show ?thesis
  proof (cases "skip_ws r")
    case Nil
    with Some k show ?thesis by simp
  next
    case c: (Cons c r1)
    from skip_ws_Cons_length [OF c] lr have l1: "length r1 < length s" by simp
    show ?thesis
    proof (cases "c = 0x3A")
      case False
      with Some k c show ?thesis by simp
    next
      case True
      show ?thesis
      proof (cases "scan_once_lim X n d (skip_ws r1)")
        case (Parsed p)
        obtain v r2 where p: "p = (v, r2)" by (cases p) auto
        from Parsed p have l2: "length r2 < length (skip_ws r1)"
          by (simp add: scan_once_lim_shorter)
        show ?thesis
        proof (cases "skip_ws r2")
          case Nil
          with Some k c True Parsed p show ?thesis by simp
        next
          case e: (Cons e r3)
          show ?thesis
          proof (cases "skip_ws r3")
            case Nil
            with Some k c True Parsed p e show ?thesis by simp
          next
            case (Cons g r4)
            from skip_ws_Cons_length [OF Cons] skip_ws_Cons_length [OF e] l2
              length_skip_ws [of r1] l1 n
            have "2 * length r4 + 2 \<le> n" by simp
            from ih_o [OF this, of d "pairs @ [(key, v)]"] Some k c True Parsed p e Cons
            show ?thesis by simp
          qed
        qed
      next
        case Unfinished
        from length_skip_ws [of r1] l1 n have "2 * length (skip_ws r1) + 1 \<le> n" by simp
        from ih_s [OF this, of d] Unfinished show ?thesis by simp
      qed (use Some k c True in simp_all)
    qed
  qed
qed

lemma lim_finished_all:
  "(\<forall>d s. 2 * length s + 1 \<le> n \<longrightarrow> scan_once_lim X n d s \<noteq> Unfinished)
   \<and> (\<forall>d acc s. 2 * length s + 2 \<le> n \<longrightarrow> json_array_lim X n d acc s \<noteq> Unfinished)
   \<and> (\<forall>d pairs s. 2 * length s + 2 \<le> n \<longrightarrow> json_object_lim X n d pairs s \<noteq> Unfinished)"
proof (induction n)
  case 0
  then show ?case by simp
next
  case (Suc n)
  have ih_s: "scan_once_lim X n d s \<noteq> Unfinished" if "2 * length s + 1 \<le> n" for d s
    using Suc that by blast
  have ih_a: "json_array_lim X n d acc s \<noteq> Unfinished" if "2 * length s + 2 \<le> n" for d acc s
    using Suc that by blast
  have ih_o: "json_object_lim X n d pairs s \<noteq> Unfinished" if "2 * length s + 2 \<le> n" for d pairs s
    using Suc that by blast
  show ?case
    by (intro conjI allI impI)
      (erule scan_once_lim_step_finished [OF ih_a ih_o, rotated 2]
       | erule json_array_lim_step_finished [OF ih_s ih_a, rotated 2]
       | erule json_object_lim_step_finished [OF ih_s ih_o, rotated 2] | assumption)+
qed

lemma json_loads_lim_finished: "json_loads_lim X s \<noteq> Unfinished"
proof -
  have "2 * length (skip_ws s) + 1 \<le> Suc (length s + length s)"
    using length_skip_ws [of s] by simp
  with lim_finished_all [of "Suc (length s + length s)" X]
  have "scan_once_lim X (Suc (length s + length s)) (decoder_depth X) (skip_ws s) \<noteq> Unfinished"
    by blast
  then show ?thesis
    by (cases "scan_once_lim X (Suc (length s + length s)) (decoder_depth X) (skip_ws s)")
      (simp_all add: json_loads_lim_def del: scan_once_lim.simps split: prod.splits)
qed

lemma json_loads_lim_Parsed:
  assumes "json_loads_lim X s = Parsed v"
  shows "json_loads X s = Some v"
proof -
  from assms have b: "take 1 s \<noteq> [0xFEFF]"
    by (auto simp: json_loads_lim_def)
  have "\<exists>r. scan_once_lim X (Suc (length s + length s)) (decoder_depth X) (skip_ws s)
              = Parsed (v, r) \<and> skip_ws r = []"
    using assms b
    by (cases "scan_once_lim X (Suc (length s + length s)) (decoder_depth X) (skip_ws s)")
      (auto simp add: json_loads_lim_def simp del: scan_once_lim.simps split: if_splits)
  then obtain r where
    "scan_once_lim X (Suc (length s + length s)) (decoder_depth X) (skip_ws s) = Parsed (v, r)"
    and r: "skip_ws r = []"
    by blast
  then have "scan_once X (Suc (length s + length s)) (skip_ws s) = Some (v, r)"
    by (simp add: scan_once_lim_sound del: scan_once_lim.simps scan_once.simps)
  from json_loads_bound_enough [OF b this r] show ?thesis .
qed

text \<open>
  A text of more opening brackets than the decoder can enter arrays raises
  \<open>RecursionError\<close>, and the decoder without the limits refuses it.
\<close>

lemma brackets_too_deep:
  "d < k \<Longrightarrow> 2 * k \<le> n \<Longrightarrow> scan_once_lim X n d (replicate k 0x5B) = TooDeep"
proof (induction d arbitrary: k n)
  case 0
  then obtain k' n' where "k = Suc k'" "n = Suc n'"
    by (cases k; cases n) auto
  then show ?case by simp
next
  case (Suc d)
  then obtain k' where k: "k = Suc k'" and dk: "d < k'"
    by (cases k) auto
  from dk obtain k'' where k': "k' = Suc k''"
    by (cases k') auto
  from Suc.prems k obtain n' where n: "n = Suc (Suc n')" and nk: "2 * k' \<le> n'"
    by (cases n; cases "n - 1") auto
  have sk: "skip_ws (replicate k' (0x5B::nat)) = 0x5B # replicate k'' 0x5B"
    by (simp add: k' skip_ws_def is_ws_def)
  from Suc.IH [OF dk nk] have "scan_once_lim X n' d (0x5B # replicate k'' 0x5B) = TooDeep"
    by (simp add: k')
  then show ?case
    by (simp add: k n sk)
qed

lemma json_loads_lim_brackets:
  assumes "decoder_depth X < k"
  shows "json_loads_lim X (replicate k 0x5B) = TooDeep"
proof -
  from assms obtain k' where k: "k = Suc k'" by (cases k) auto
  have sk: "skip_ws (replicate k (0x5B::nat)) = replicate k 0x5B"
    by (simp add: k skip_ws_def is_ws_def)
  have "scan_once_lim X (Suc (k + k)) (decoder_depth X) (replicate k 0x5B) = TooDeep"
    by (rule brackets_too_deep [OF assms]) simp
  then show ?thesis
    by (simp add: json_loads_lim_def sk) (simp add: k)
qed

lemma brackets_refused:
  "scan_once X n (replicate k 0x5B) = None \<and> json_array X n acc (replicate k 0x5B) = None"
proof (induction n arbitrary: k acc rule: less_induct)
  case (less n)
  show ?case
  proof (cases n)
    case 0
    then show ?thesis by simp
  next
    case (Suc n')
    have a: "json_array X n acc (replicate k 0x5B) = None"
      using less [of n' k] Suc by simp
    have "scan_once X n (replicate k 0x5B) = None"
    proof (cases k)
      case 0
      with Suc show ?thesis by simp
    next
      case k: (Suc k')
      show ?thesis
      proof (cases k')
        case 0
        with Suc k show ?thesis by (simp add: skip_ws_def)
      next
        case (Suc k'')
        have sk: "skip_ws (replicate k' (0x5B::nat)) = 0x5B # replicate k'' 0x5B"
          by (simp add: Suc skip_ws_def is_ws_def)
        from less [of n' k' "[]"] \<open>n = Suc n'\<close>
        have "json_array X n' [] (0x5B # replicate k'' 0x5B) = None"
          by (simp add: Suc)
        with \<open>n = Suc n'\<close> k sk show ?thesis by simp
      qed
    qed
    with a show ?thesis by simp
  qed
qed

lemma json_loads_brackets: "json_loads X (replicate k 0x5B) = None"
proof (cases k)
  case 0
  then show ?thesis by (simp add: json_loads_def skip_ws_def)
next
  case (Suc k')
  have sk: "skip_ws (replicate k (0x5B::nat)) = replicate k 0x5B"
    by (simp add: Suc skip_ws_def is_ws_def)
  show ?thesis
    using brackets_refused [of X "Suc (length (replicate k (0x5B::nat)))" k]
    by (simp add: json_loads_def sk)
qed

section \<open>validate.py\<close>

subsection \<open>Arguments, files and the state of a run\<close>

text \<open>
  \<open>args\<close> is what \<open>parse_commandline\<close> returns. The state of a run is the two global
  counters, what has been written to standard output, and the files: a path that is
  not a regular file maps to \<open>None\<close>.
\<close>

record args =
  fix_formatting :: bool
  verbose :: int
  base_path :: pystr
  pack_path :: pystr
  schema_path :: pystr

record file_entry =
  content :: bytes
  readable :: bool
  writable :: bool

record state =
  formatting_errors :: int
  validation_errors :: int
  stdout :: pystr
  fs :: "pystr \<Rightarrow> file_entry option"

text \<open>\<open>os.path.join\<close> of two components (POSIX) and \<open>'%s'\<close>.\<close>

definition path_join :: "pystr \<Rightarrow> pystr \<Rightarrow> pystr" where
  "path_join a b =
     (if take 1 b = [0x2F] then b
      else if a = [] \<or> last a = 0x2F then a @ b
      else a @ [0x2F] @ b)"

definition quoted :: "pystr \<Rightarrow> pystr" where
  "quoted s = [0x27] @ s @ [0x27]"

text \<open>
  Standard output is an open text stream that encodes what is written as UTF-8 in
  strict mode, as Python 3 sets it up in a UTF-8 locale: \<open>sys.stdout.write\<close> of a
  text that holds a surrogate raises \<open>UnicodeEncodeError\<close> and writes nothing of it.
\<close>

definition encodable :: "pystr \<Rightarrow> bool" where
  "encodable text = (utf8_encode text \<noteq> None)"

definition stdout_write :: "pystr \<Rightarrow> state \<Rightarrow> exn + state" where
  "stdout_write text s =
     (if encodable text then Inr (s\<lparr>stdout := stdout s @ text\<rparr>) else Inl UnicodeEncodeError)"

definition verbose_print :: "args \<Rightarrow> pystr \<Rightarrow> int \<Rightarrow> state \<Rightarrow> exn + state" where
  "verbose_print args text minimum_verbosity s =
     (if verbose args \<ge> minimum_verbosity then stdout_write text s else Inr s)"

text \<open>\<open>print(e)\<close>, given the text of \<open>e\<close>: the text is written, then the newline.\<close>

definition print :: "pystr \<Rightarrow> state \<Rightarrow> exn + state" where
  "print text s =
     (case stdout_write text s of
        Inl x \<Rightarrow> Inl x
      | Inr s1 \<Rightarrow> stdout_write [10] s1)"

subsection \<open>Checks\<close>

definition check_file_access :: "pystr \<Rightarrow> state \<Rightarrow> exn + unit" where
  "check_file_access path s =
     (case fs s path of
        None \<Rightarrow> Inl (SystemExit (path @ u '' does not exist''))
      | Some f \<Rightarrow>
          if readable f then Inr ()
          else Inl (SystemExit (u ''%s is not a readable file'')))"

text \<open>
  \<open>check_json_schema\<close> catches \<open>SchemaError\<close> only; in the handler the diagnostic is
  written before the counter is incremented, and \<open>print(e)\<close> comes after.
\<close>

definition check_json_schema :: "ext \<Rightarrow> args \<Rightarrow> json \<Rightarrow> pystr \<Rightarrow> state \<Rightarrow> (exn + bool) \<times> state" where
  "check_json_schema X args data path s =
     (case check_schema X data of
        Inr _ \<Rightarrow> (Inr True, s)
      | Inl (SchemaError e) \<Rightarrow>
          (case verbose_print args
                  (path @ u '': Schema file is not valid Draft 4 JSON schema.\<newline>'') 0 s of
             Inl x \<Rightarrow> (Inl x, s)
           | Inr s1 \<Rightarrow>
               (let s2 = s1\<lparr>validation_errors := validation_errors s1 + 1\<rparr>
                in case print e s2 of
                     Inl x \<Rightarrow> (Inl x, s2)
                   | Inr s3 \<Rightarrow> (Inr False, s3)))
      | Inl x \<Rightarrow> (Inl x, s))"

text \<open>
  The custom checks return normally or raise: \<open>ValidationError\<close> with the message they
  build, or what a failing \<open>x[k]\<close> or \<open>for\<close> raises.
\<close>

definition custom_card_check :: "ext \<Rightarrow> args \<Rightarrow> json \<Rightarrow> json \<Rightarrow> exn + unit" where
  "custom_card_check X args card' pack_code =
     (case py_getitem card' (u ''pack_code'') of
        Inl e \<Rightarrow> Inl e
      | Inr pc \<Rightarrow>
          if \<not> py_eq X pc pack_code then
            (case py_getitem card' (u ''code'') of
               Inl e \<Rightarrow> Inl e
             | Inr code \<Rightarrow>
                 Inl (ValidationError
                   (u ''Pack code '' @ quoted (py_str X pc) @ u '' of the card ''
                    @ quoted (py_str X code) @ u '' doesn't match the pack code ''
                    @ quoted (py_str X pack_code) @ u '' of the file it appears in.'')))
          else Inr ())"

fun getitem_each :: "json list \<Rightarrow> pystr \<Rightarrow> exn + json list" where
  "getitem_each [] k = Inr []"
| "getitem_each (c # cs) k =
     (case py_getitem c k of
        Inl e \<Rightarrow> Inl e
      | Inr v \<Rightarrow> (case getitem_each cs k of Inl e \<Rightarrow> Inl e | Inr vs \<Rightarrow> Inr (v # vs)))"

definition custom_pack_check :: "ext \<Rightarrow> args \<Rightarrow> json \<Rightarrow> json \<Rightarrow> exn + unit" where
  "custom_pack_check X args pack cycles_data =
     (case py_getitem pack (u ''cycle_code'') of
        Inl e \<Rightarrow> Inl e
      | Inr cc \<Rightarrow>
          (case py_iter cycles_data of
             Inl e \<Rightarrow> Inl e
           | Inr cs \<Rightarrow>
               (case getitem_each cs (u ''code'') of
                  Inl e \<Rightarrow> Inl e
                | Inr codes \<Rightarrow>
                    if \<not> list_ex (\<lambda>c. py_eq X c cc) codes then
                      (case py_getitem pack (u ''code'') of
                         Inl e \<Rightarrow> Inl e
                       | Inr code \<Rightarrow>
                           Inl (ValidationError
                             (u ''Cycle code '' @ quoted (py_str X cc) @ u '' of the pack ''
                              @ quoted (py_str X code)
                              @ u '' doesn't match any valid cycle code.'')))
                    else Inr ())))"

subsection \<open>Loading a file\<close>

text \<open>
  \<open>open(path, "rb")\<close> raises \<open>IOError\<close> on a file that is missing or not readable, and
  nothing catches it. The handler of the \<open>try\<close> catches \<open>ValueError\<close>, which the
  decoding of the bytes, a text that is not JSON and an integer of too many digits
  raise; \<open>RecursionError\<close> from \<open>json.loads\<close> or from \<open>json.dumps\<close> in
  \<open>format_json\<close> is not caught. \<open>open(path, "wb")\<close> empties the file before the text is encoded,
  so a text that cannot be encoded leaves the file empty and \<open>UnicodeEncodeError\<close>,
  which is not an \<open>IOError\<close>, leaves the function.
\<close>

definition write_file :: "pystr \<Rightarrow> bytes \<Rightarrow> state \<Rightarrow> state" where
  "write_file path bin s =
     (case fs s path of
        None \<Rightarrow> s
      | Some f \<Rightarrow> s\<lparr>fs := (fs s)(path := Some (f\<lparr>content := bin\<rparr>))\<rparr>)"

text \<open>The \<open>try\<close> of \<open>load_json_file\<close> on the bytes that were read.\<close>

definition decode_and_load :: "ext \<Rightarrow> bytes \<Rightarrow> (pystr \<times> json) attempt" where
  "decode_and_load X bin_data =
     (case utf8_decode bin_data of
        None \<Rightarrow> Refused
      | Some raw_data \<Rightarrow>
          (case json_loads_lim X raw_data of
             Parsed json_data \<Rightarrow> Parsed (raw_data, json_data)
           | Refused \<Rightarrow> Refused
           | TooDeep \<Rightarrow> TooDeep
           | Unfinished \<Rightarrow> Unfinished))"

text \<open>The branch of \<open>load_json_file\<close> that rewrites the file.\<close>

definition fix_file :: "ext \<Rightarrow> args \<Rightarrow> pystr \<Rightarrow> file_entry \<Rightarrow> pystr \<Rightarrow> json \<Rightarrow> state \<Rightarrow> (exn + json) \<times> state" where
  "fix_file X args path f formatted_raw_data json_data s =
     (case verbose_print args (path @ u '': Fixing JSON formatting...\<newline>'') 0 s of
        Inl x \<Rightarrow> (Inl x, s)
      | Inr s1 \<Rightarrow>
          if writable f then
            (case utf8_encode formatted_raw_data of
               None \<Rightarrow> (Inl UnicodeEncodeError, write_file path [] s1)
             | Some bin_formatted_data \<Rightarrow> (Inr json_data, write_file path bin_formatted_data s1))
          else
            (case verbose_print args (path @ u '': Cannot open file to write.\<newline>'') 0 s1 of
               Inl x \<Rightarrow> (Inl x, s1)
             | Inr s2 \<Rightarrow>
                 (case print (io_error_text X path) s2 of
                    Inl x \<Rightarrow> (Inl x, s2)
                  | Inr s3 \<Rightarrow> (Inr json_data, s3))))"

definition load_json_file :: "ext \<Rightarrow> args \<Rightarrow> pystr \<Rightarrow> state \<Rightarrow> (exn + json) \<times> state" where
  "load_json_file X args path s =
     (case fs s path of
        None \<Rightarrow> (Inl IOError, s)
      | Some f \<Rightarrow>
          if \<not> readable f then (Inl IOError, s)
          else
            (case decode_and_load X (content f) of
               Refused \<Rightarrow>
                 (case verbose_print args (path @ u '': File is not valid JSON.\<newline>'') 0 s of
                    Inl x \<Rightarrow> (Inl x, s)
                  | Inr s1 \<Rightarrow>
                      (let s2 = s1\<lparr>validation_errors := validation_errors s1 + 1\<rparr>
                       in case print (value_error_text X (content f)) s2 of
                            Inl x \<Rightarrow> (Inl x, s2)
                          | Inr s3 \<Rightarrow> (Inr JNull, s3)))
             | TooDeep \<Rightarrow> (Inl RecursionError, s)
             | Unfinished \<Rightarrow> (Inl RecursionError, s)
             | Parsed (raw_data, json_data) \<Rightarrow>
                 (case verbose_print args (path @ u '': Checking JSON formatting...\<newline>'') 1 s of
                    Inl x \<Rightarrow> (Inl x, s)
                  | Inr s1 \<Rightarrow>
                      if encoder_depth X < nesting json_data then (Inl RecursionError, s1)
                      else
                        (let formatted_raw_data = format_json json_data
                         in if formatted_raw_data \<noteq> raw_data then
                              (case verbose_print args
                                      (path @ u '': File is not correctly formatted JSON.\<newline>'')
                                      0 s1 of
                                 Inl x \<Rightarrow> (Inl x, s1)
                               | Inr s2 \<Rightarrow>
                                   (let s3 = s2\<lparr>formatting_errors := formatting_errors s2 + 1\<rparr>
                                    in if fix_formatting args \<and> length formatted_raw_data > 0
                                       then fix_file X args path f formatted_raw_data json_data s3
                                       else (Inr json_data, s3)))
                            else (Inr json_data, s1)))))"


subsection \<open>Cycles\<close>

text \<open>
  The loop of \<open>validate_cycles\<close>. \<open>validate_cycles_try\<close> is the \<open>try\<close> block: the
  argument of \<open>verbose_print\<close> is evaluated before the call, whatever the verbosity,
  and \<open>c.get\<close> raises \<open>AttributeError\<close> on a value that is no \<open>dict\<close>.
  \<open>validate_cycles_except\<close> is the handler, which catches \<open>ValidationError\<close> only:
  the two lines are written, then the counter is incremented, then \<open>print(e)\<close>. The
  body gives \<open>True\<close> when the cycle passes and \<open>False\<close> when the handler has run
  (\<open>retval = False\<close>); any other exception leaves the loop.
\<close>

definition validate_cycles_try :: "ext \<Rightarrow> args \<Rightarrow> json \<Rightarrow> json \<Rightarrow> state \<Rightarrow> (exn + unit) \<times> state" where
  "validate_cycles_try X args CYCLE_SCHEMA c s =
     (case py_get c (u ''name'') of
        Inl x \<Rightarrow> (Inl x, s)
      | Inr name \<Rightarrow>
          (case verbose_print args (u ''Validating cycle '' @ py_str X name @ u ''... '') 2 s of
             Inl x \<Rightarrow> (Inl x, s)
           | Inr s1 \<Rightarrow>
               (case validate X c CYCLE_SCHEMA of
                  Inl x \<Rightarrow> (Inl x, s1)
                | Inr _ \<Rightarrow>
                    (case verbose_print args (u ''OK\<newline>'') 2 s1 of
                       Inl x \<Rightarrow> (Inl x, s1)
                     | Inr s2 \<Rightarrow> (Inr (), s2)))))"

definition validate_cycles_except :: "ext \<Rightarrow> args \<Rightarrow> json \<Rightarrow> pystr \<Rightarrow> state \<Rightarrow> (exn + bool) \<times> state" where
  "validate_cycles_except X args c e s =
     (case verbose_print args (u ''ERROR\<newline>'') 2 s of
        Inl x \<Rightarrow> (Inl x, s)
      | Inr s1 \<Rightarrow>
          (case py_get c (u ''code'') of
             Inl x \<Rightarrow> (Inl x, s1)
           | Inr code \<Rightarrow>
               (case py_get c (u ''name'') of
                  Inl x \<Rightarrow> (Inl x, s1)
                | Inr name \<Rightarrow>
                    (case verbose_print args
                            (u ''Validation error in cycle: (code: ''
                             @ quoted (py_str X code) @ u '' name: ''
                             @ quoted (py_str X name) @ u '')\<newline>'') 0 s1 of
                       Inl x \<Rightarrow> (Inl x, s1)
                     | Inr s2 \<Rightarrow>
                         (let s3 = s2\<lparr>validation_errors := validation_errors s2 + 1\<rparr>
                          in case print e s3 of
                               Inl x \<Rightarrow> (Inl x, s3)
                             | Inr s4 \<Rightarrow> (Inr False, s4))))))"

definition validate_cycles_body :: "ext \<Rightarrow> args \<Rightarrow> json \<Rightarrow> json \<Rightarrow> state \<Rightarrow> (exn + bool) \<times> state" where
  "validate_cycles_body X args CYCLE_SCHEMA c s =
     (case validate_cycles_try X args CYCLE_SCHEMA c s of
        (Inr _, s') \<Rightarrow> (Inr True, s')
      | (Inl (ValidationError e), s') \<Rightarrow> validate_cycles_except X args c e s'
      | (Inl x, s') \<Rightarrow> (Inl x, s'))"

fun validate_cycles_loop :: "ext \<Rightarrow> args \<Rightarrow> json \<Rightarrow> json list \<Rightarrow> bool \<Rightarrow> state \<Rightarrow> (exn + bool) \<times> state" where
  "validate_cycles_loop X args CYCLE_SCHEMA [] retval s = (Inr retval, s)"
| "validate_cycles_loop X args CYCLE_SCHEMA (c # cs) retval s =
     (case validate_cycles_body X args CYCLE_SCHEMA c s of
        (Inl e, s') \<Rightarrow> (Inl e, s')
      | (Inr ok, s') \<Rightarrow> validate_cycles_loop X args CYCLE_SCHEMA cs (retval \<and> ok) s')"

definition validate_cycles :: "ext \<Rightarrow> args \<Rightarrow> json \<Rightarrow> state \<Rightarrow> (exn + bool) \<times> state" where
  "validate_cycles X args cycles_data s =
     (case verbose_print args (u ''Validating cycle index file...\<newline>'') 1 s of
        Inl x \<Rightarrow> (Inl x, s)
      | Inr s1 \<Rightarrow>
          (let cycle_schema_path = path_join (schema_path args) (u ''cycle_schema.json'')
           in case load_json_file X args cycle_schema_path s1 of
                (Inl e, s2) \<Rightarrow> (Inl e, s2)
              | (Inr CYCLE_SCHEMA, s2) \<Rightarrow>
                  if \<not> isinstance_list cycles_data then
                    (case verbose_print args
                            (u ''Insides of cycle index file are not a list!\<newline>'') 0 s2 of
                       Inl x \<Rightarrow> (Inl x, s2)
                     | Inr s3 \<Rightarrow> (Inr False, s3))
                  else if \<not> truthy CYCLE_SCHEMA then (Inr False, s2)
                  else
                    (case check_json_schema X args CYCLE_SCHEMA cycle_schema_path s2 of
                       (Inl e, s3) \<Rightarrow> (Inl e, s3)
                     | (Inr False, s3) \<Rightarrow> (Inr False, s3)
                     | (Inr True, s3) \<Rightarrow>
                         (case py_iter cycles_data of
                            Inl e \<Rightarrow> (Inl e, s3)
                          | Inr cs \<Rightarrow> validate_cycles_loop X args CYCLE_SCHEMA cs True s3))))"

definition load_cycles :: "ext \<Rightarrow> args \<Rightarrow> state \<Rightarrow> (exn + json) \<times> state" where
  "load_cycles X args s =
     (case verbose_print args (u ''Loading cycle index file...\<newline>'') 1 s of
        Inl x \<Rightarrow> (Inl x, s)
      | Inr s1 \<Rightarrow>
          (let cycles_path = path_join (base_path args) (u ''cycles.json'')
           in case load_json_file X args cycles_path s1 of
                (Inl e, s2) \<Rightarrow> (Inl e, s2)
              | (Inr cycles_data, s2) \<Rightarrow>
                  (case validate_cycles X args cycles_data s2 of
                     (Inl e, s3) \<Rightarrow> (Inl e, s3)
                   | (Inr ok, s3) \<Rightarrow>
                       if \<not> ok then (Inr JNull, s3) else (Inr cycles_data, s3))))"

subsection \<open>Packs\<close>

text \<open>
  The loop of \<open>validate_packs\<close>, in the same three parts: in the \<open>try\<close> the schema
  comes first, then the cross-check against the cycles.
\<close>

definition validate_packs_try :: "ext \<Rightarrow> args \<Rightarrow> json \<Rightarrow> json \<Rightarrow> json \<Rightarrow> state \<Rightarrow> (exn + unit) \<times> state" where
  "validate_packs_try X args PACK_SCHEMA cycles_data p s =
     (case py_get p (u ''name'') of
        Inl x \<Rightarrow> (Inl x, s)
      | Inr name \<Rightarrow>
          (case verbose_print args (u ''Validating pack '' @ py_str X name @ u ''... '') 2 s of
             Inl x \<Rightarrow> (Inl x, s)
           | Inr s1 \<Rightarrow>
               (case validate X p PACK_SCHEMA of
                  Inl x \<Rightarrow> (Inl x, s1)
                | Inr _ \<Rightarrow>
                    (case custom_pack_check X args p cycles_data of
                       Inl x \<Rightarrow> (Inl x, s1)
                     | Inr _ \<Rightarrow>
                         (case verbose_print args (u ''OK\<newline>'') 2 s1 of
                            Inl x \<Rightarrow> (Inl x, s1)
                          | Inr s2 \<Rightarrow> (Inr (), s2))))))"

definition validate_packs_except :: "ext \<Rightarrow> args \<Rightarrow> json \<Rightarrow> pystr \<Rightarrow> state \<Rightarrow> (exn + bool) \<times> state" where
  "validate_packs_except X args p e s =
     (case verbose_print args (u ''ERROR\<newline>'') 2 s of
        Inl x \<Rightarrow> (Inl x, s)
      | Inr s1 \<Rightarrow>
          (case py_get p (u ''code'') of
             Inl x \<Rightarrow> (Inl x, s1)
           | Inr code \<Rightarrow>
               (case py_get p (u ''name'') of
                  Inl x \<Rightarrow> (Inl x, s1)
                | Inr name \<Rightarrow>
                    (case verbose_print args
                            (u ''Validation error in pack: (code: ''
                             @ quoted (py_str X code) @ u '' name: ''
                             @ quoted (py_str X name) @ u '')\<newline>'') 0 s1 of
                       Inl x \<Rightarrow> (Inl x, s1)
                     | Inr s2 \<Rightarrow>
                         (let s3 = s2\<lparr>validation_errors := validation_errors s2 + 1\<rparr>
                          in case print e s3 of
                               Inl x \<Rightarrow> (Inl x, s3)
                             | Inr s4 \<Rightarrow> (Inr False, s4))))))"

definition validate_packs_body :: "ext \<Rightarrow> args \<Rightarrow> json \<Rightarrow> json \<Rightarrow> json \<Rightarrow> state \<Rightarrow> (exn + bool) \<times> state" where
  "validate_packs_body X args PACK_SCHEMA cycles_data p s =
     (case validate_packs_try X args PACK_SCHEMA cycles_data p s of
        (Inr _, s') \<Rightarrow> (Inr True, s')
      | (Inl (ValidationError e), s') \<Rightarrow> validate_packs_except X args p e s'
      | (Inl x, s') \<Rightarrow> (Inl x, s'))"

fun validate_packs_loop :: "ext \<Rightarrow> args \<Rightarrow> json \<Rightarrow> json \<Rightarrow> json list \<Rightarrow> bool \<Rightarrow> state \<Rightarrow> (exn + bool) \<times> state" where
  "validate_packs_loop X args PACK_SCHEMA cycles_data [] retval s = (Inr retval, s)"
| "validate_packs_loop X args PACK_SCHEMA cycles_data (p # ps) retval s =
     (case validate_packs_body X args PACK_SCHEMA cycles_data p s of
        (Inl e, s') \<Rightarrow> (Inl e, s')
      | (Inr ok, s') \<Rightarrow> validate_packs_loop X args PACK_SCHEMA cycles_data ps (retval \<and> ok) s')"

definition validate_packs :: "ext \<Rightarrow> args \<Rightarrow> json \<Rightarrow> json \<Rightarrow> state \<Rightarrow> (exn + bool) \<times> state" where
  "validate_packs X args packs_data cycles_data s =
     (case verbose_print args (u ''Validating pack index file...\<newline>'') 1 s of
        Inl x \<Rightarrow> (Inl x, s)
      | Inr s1 \<Rightarrow>
          (let pack_schema_path = path_join (schema_path args) (u ''pack_schema.json'')
           in case load_json_file X args pack_schema_path s1 of
                (Inl e, s2) \<Rightarrow> (Inl e, s2)
              | (Inr PACK_SCHEMA, s2) \<Rightarrow>
                  if \<not> isinstance_list packs_data then
                    (case verbose_print args
                            (u ''Insides of pack index file are not a list!\<newline>'') 0 s2 of
                       Inl x \<Rightarrow> (Inl x, s2)
                     | Inr s3 \<Rightarrow> (Inr False, s3))
                  else if \<not> truthy PACK_SCHEMA then (Inr False, s2)
                  else
                    (case check_json_schema X args PACK_SCHEMA pack_schema_path s2 of
                       (Inl e, s3) \<Rightarrow> (Inl e, s3)
                     | (Inr False, s3) \<Rightarrow> (Inr False, s3)
                     | (Inr True, s3) \<Rightarrow>
                         (case py_iter packs_data of
                            Inl e \<Rightarrow> (Inl e, s3)
                          | Inr ps \<Rightarrow>
                              validate_packs_loop X args PACK_SCHEMA cycles_data ps True s3))))"

text \<open>The loop of \<open>load_pack_index\<close>: \<open>sys.exit\<close> at the first pack file that is missing.\<close>

fun check_pack_files :: "ext \<Rightarrow> args \<Rightarrow> json list \<Rightarrow> state \<Rightarrow> exn + unit" where
  "check_pack_files X args [] s = Inr ()"
| "check_pack_files X args (p # ps) s =
     (case py_getitem p (u ''code'') of
        Inl e \<Rightarrow> Inl e
      | Inr code \<Rightarrow>
          (let pack_filename = py_str X code @ u ''.json'';
               pack_path = path_join (pack_path args) pack_filename
           in case check_file_access pack_path s of
                Inl e \<Rightarrow> Inl e
              | Inr _ \<Rightarrow> check_pack_files X args ps s))"

definition load_pack_index :: "ext \<Rightarrow> args \<Rightarrow> json \<Rightarrow> state \<Rightarrow> (exn + json) \<times> state" where
  "load_pack_index X args cycles_data s =
     (case verbose_print args (u ''Loading pack index file...\<newline>'') 1 s of
        Inl x \<Rightarrow> (Inl x, s)
      | Inr s1 \<Rightarrow>
          (let packs_path = path_join (base_path args) (u ''packs.json'')
           in case load_json_file X args packs_path s1 of
                (Inl e, s2) \<Rightarrow> (Inl e, s2)
              | (Inr packs_data, s2) \<Rightarrow>
                  (case validate_packs X args packs_data cycles_data s2 of
                     (Inl e, s3) \<Rightarrow> (Inl e, s3)
                   | (Inr ok, s3) \<Rightarrow>
                       if \<not> ok then (Inr JNull, s3)
                       else
                         (case py_iter packs_data of
                            Inl e \<Rightarrow> (Inl e, s3)
                          | Inr ps \<Rightarrow>
                              (case check_pack_files X args ps s3 of
                                 Inl e \<Rightarrow> (Inl e, s3)
                               | Inr _ \<Rightarrow> (Inr packs_data, s3))))))"

subsection \<open>Cards\<close>

text \<open>
  \<open>validate_card\<close>, in the same three parts; its \<open>try\<close> starts with \<open>card["name"]\<close>,
  which raises \<open>KeyError\<close> on a card without a name.
\<close>

definition validate_card_try :: "ext \<Rightarrow> args \<Rightarrow> json \<Rightarrow> json \<Rightarrow> json \<Rightarrow> state \<Rightarrow> (exn + unit) \<times> state" where
  "validate_card_try X args card' card_schema pack_code s =
     (case py_getitem card' (u ''name'') of
        Inl x \<Rightarrow> (Inl x, s)
      | Inr name \<Rightarrow>
          (case verbose_print args (u ''Validating card '' @ py_str X name @ u ''... '') 2 s of
             Inl x \<Rightarrow> (Inl x, s)
           | Inr s1 \<Rightarrow>
               (case validate X card' card_schema of
                  Inl x \<Rightarrow> (Inl x, s1)
                | Inr _ \<Rightarrow>
                    (case custom_card_check X args card' pack_code of
                       Inl x \<Rightarrow> (Inl x, s1)
                     | Inr _ \<Rightarrow>
                         (case verbose_print args (u ''OK\<newline>'') 2 s1 of
                            Inl x \<Rightarrow> (Inl x, s1)
                          | Inr s2 \<Rightarrow> (Inr (), s2))))))"

definition validate_card_except :: "ext \<Rightarrow> args \<Rightarrow> json \<Rightarrow> json \<Rightarrow> pystr \<Rightarrow> state \<Rightarrow> (exn + unit) \<times> state" where
  "validate_card_except X args card' pack_code e s =
     (case verbose_print args (u ''ERROR\<newline>'') 2 s of
        Inl x \<Rightarrow> (Inl x, s)
      | Inr s1 \<Rightarrow>
          (case py_get card' (u ''code'') of
             Inl x \<Rightarrow> (Inl x, s1)
           | Inr code \<Rightarrow>
               (case py_get card' (u ''name'') of
                  Inl x \<Rightarrow> (Inl x, s1)
                | Inr name \<Rightarrow>
                    (case verbose_print args
                            (u ''Validation error in card: (pack code: ''
                             @ quoted (py_str X pack_code) @ u '' card code: ''
                             @ quoted (py_str X code) @ u '' name: ''
                             @ quoted (py_str X name) @ u '')\<newline>'') 0 s1 of
                       Inl x \<Rightarrow> (Inl x, s1)
                     | Inr s2 \<Rightarrow>
                         (let s3 = s2\<lparr>validation_errors := validation_errors s2 + 1\<rparr>
                          in case print e s3 of
                               Inl x \<Rightarrow> (Inl x, s3)
                             | Inr s4 \<Rightarrow> (Inr (), s4))))))"

definition validate_card :: "ext \<Rightarrow> args \<Rightarrow> json \<Rightarrow> json \<Rightarrow> json \<Rightarrow> state \<Rightarrow> (exn + unit) \<times> state" where
  "validate_card X args card' card_schema pack_code s =
     (case validate_card_try X args card' card_schema pack_code s of
        (Inr _, s') \<Rightarrow> (Inr (), s')
      | (Inl (ValidationError e), s') \<Rightarrow> validate_card_except X args card' pack_code e s'
      | (Inl x, s') \<Rightarrow> (Inl x, s'))"

text \<open>The inner loop of \<open>validate_cards\<close>, over the cards of one pack file.\<close>

fun validate_cards_of_pack :: "ext \<Rightarrow> args \<Rightarrow> json \<Rightarrow> json \<Rightarrow> json list \<Rightarrow> state \<Rightarrow> (exn + unit) \<times> state" where
  "validate_cards_of_pack X args CARD_SCHEMA p [] s = (Inr (), s)"
| "validate_cards_of_pack X args CARD_SCHEMA p (c # cs) s =
     (case py_getitem p (u ''code'') of
        Inl e \<Rightarrow> (Inl e, s)
      | Inr code \<Rightarrow>
          (case validate_card X args c CARD_SCHEMA code s of
             (Inl e, s') \<Rightarrow> (Inl e, s')
           | (Inr _, s') \<Rightarrow> validate_cards_of_pack X args CARD_SCHEMA p cs s'))"

text \<open>The body of the outer loop: \<open>continue\<close> on a pack file that gives a false value.\<close>

definition validate_cards_body :: "ext \<Rightarrow> args \<Rightarrow> json \<Rightarrow> json \<Rightarrow> state \<Rightarrow> (exn + unit) \<times> state" where
  "validate_cards_body X args CARD_SCHEMA p s =
     (case py_getitem p (u ''name'') of
        Inl e \<Rightarrow> (Inl e, s)
      | Inr name \<Rightarrow>
          (case verbose_print args
                  (u ''Validating cards from '' @ py_str X name @ u ''...\<newline>'') 1 s of
             Inl x \<Rightarrow> (Inl x, s)
           | Inr s1 \<Rightarrow>
               (case py_getitem p (u ''code'') of
                  Inl e \<Rightarrow> (Inl e, s1)
                | Inr code \<Rightarrow>
                    (let pack_path = path_join (pack_path args) (py_str X code @ u ''.json'')
                     in case load_json_file X args pack_path s1 of
                          (Inl e, s2) \<Rightarrow> (Inl e, s2)
                        | (Inr pack_data, s2) \<Rightarrow>
                            if \<not> truthy pack_data then (Inr (), s2)
                            else
                              (case py_iter pack_data of
                                 Inl e \<Rightarrow> (Inl e, s2)
                               | Inr cards \<Rightarrow>
                                   validate_cards_of_pack X args CARD_SCHEMA p cards s2)))))"

fun validate_cards_loop :: "ext \<Rightarrow> args \<Rightarrow> json \<Rightarrow> json list \<Rightarrow> state \<Rightarrow> (exn + unit) \<times> state" where
  "validate_cards_loop X args CARD_SCHEMA [] s = (Inr (), s)"
| "validate_cards_loop X args CARD_SCHEMA (p # ps) s =
     (case validate_cards_body X args CARD_SCHEMA p s of
        (Inl e, s') \<Rightarrow> (Inl e, s')
      | (Inr _, s') \<Rightarrow> validate_cards_loop X args CARD_SCHEMA ps s')"

definition validate_cards :: "ext \<Rightarrow> args \<Rightarrow> json \<Rightarrow> state \<Rightarrow> (exn + unit) \<times> state" where
  "validate_cards X args packs_data s =
     (let card_schema_path = path_join (schema_path args) (u ''card_schema.json'')
      in case load_json_file X args card_schema_path s of
           (Inl e, s1) \<Rightarrow> (Inl e, s1)
         | (Inr CARD_SCHEMA, s1) \<Rightarrow>
             if \<not> truthy CARD_SCHEMA then (Inr (), s1)
             else
               (case check_json_schema X args CARD_SCHEMA card_schema_path s1 of
                  (Inl e, s2) \<Rightarrow> (Inl e, s2)
                | (Inr False, s2) \<Rightarrow> (Inr (), s2)
                | (Inr True, s2) \<Rightarrow>
                    (case py_iter packs_data of
                       Inl e \<Rightarrow> (Inl e, s2)
                     | Inr ps \<Rightarrow> validate_cards_loop X args CARD_SCHEMA ps s2)))"

subsection \<open>The run\<close>

text \<open>
  \<open>main\<close> after \<open>parse_commandline\<close>, whose result is the argument \<open>args\<close>. A run ends
  with \<open>sys.exit(0)\<close> or \<open>sys.exit(1)\<close> after the summary, or earlier with an exception
  nothing catches: \<open>SystemExit\<close> with a message from \<open>check_file_access\<close>, or an error
  with its traceback. \<open>main_stages\<close> is \<open>main\<close> up to the summary.
\<close>

datatype outcome = Exit int | Uncaught exn

definition main_stages :: "ext \<Rightarrow> args \<Rightarrow> state \<Rightarrow> (exn + unit) \<times> state" where
  "main_stages X args s =
     (let s0 = s\<lparr>formatting_errors := 0, validation_errors := 0\<rparr>
      in case load_cycles X args s0 of
           (Inl e, s1) \<Rightarrow> (Inl e, s1)
         | (Inr cycles, s1) \<Rightarrow>
             (case load_pack_index X args cycles s1 of
                (Inl e, s2) \<Rightarrow> (Inl e, s2)
              | (Inr packs, s2) \<Rightarrow>
                  if truthy packs then validate_cards X args packs s2
                  else
                    (case verbose_print args
                            (u ''Couldn't open packs file correctly, skipping card validation...\<newline>'')
                            0 s2 of
                       Inl x \<Rightarrow> (Inl x, s2)
                     | Inr s3 \<Rightarrow> (Inr (), s3))))"

definition summary :: "int \<Rightarrow> int \<Rightarrow> pystr" where
  "summary fe ve =
     u ''Found '' @ str_int fe @ u '' formatting and '' @ str_int ve @ u '' validation errors\<newline>''"

definition main :: "ext \<Rightarrow> args \<Rightarrow> state \<Rightarrow> outcome \<times> state" where
  "main X args s =
     (case main_stages X args s of
        (Inl e, s') \<Rightarrow> (Uncaught e, s')
      | (Inr _, s') \<Rightarrow>
          (case stdout_write (summary (formatting_errors s') (validation_errors s')) s' of
             Inl x \<Rightarrow> (Uncaught x, s')
           | Inr s'' \<Rightarrow>
               if formatting_errors s'' = 0 \<and> validation_errors s'' = 0
               then (Exit 0, s'')
               else (Exit 1, s'')))"


section \<open>An instance for the examples\<close>

text \<open>
  The examples need the external parts at concrete values. \<open>example_ext\<close> decides the
  Draft 4 schemas made of the keywords \<open>type\<close>, with one type name, and
  \<open>required\<close>, and takes the text of a number literal as it stands; \<open>validate\<close>
  checks the schema before the instance, as \<open>jsonschema.validate\<close> does. It agrees
  with Python and \<open>jsonschema\<close> on the values the examples use. The two depths are
  below the default recursion limit of 1000, and the texts of the messages are
  placeholders.
\<close>

definition example_type_ok :: "pystr \<Rightarrow> json \<Rightarrow> bool" where
  "example_type_ok t v =
     (case v of
        JNull \<Rightarrow> t = u ''null''
      | JBool b \<Rightarrow> t = u ''boolean''
      | JInt i \<Rightarrow> t = u ''integer'' \<or> t = u ''number''
      | JFloat r \<Rightarrow> t = u ''number''
      | JStr s \<Rightarrow> t = u ''string''
      | JList xs \<Rightarrow> t = u ''array''
      | JDict kvs \<Rightarrow> t = u ''object'')"

fun is_str :: "json \<Rightarrow> bool" where
  "is_str (JStr s) = True"
| "is_str _ = False"

definition example_check_schema :: "json \<Rightarrow> exn + unit" where
  "example_check_schema sch =
     (case sch of
        JDict kvs \<Rightarrow>
          if (case map_of kvs (u ''type'') of
                None \<Rightarrow> True
              | Some (JStr t) \<Rightarrow>
                  t \<in> set (map u [''null'', ''boolean'', ''integer'', ''number'', ''string'',
                                     ''array'', ''object''])
              | Some _ \<Rightarrow> False)
             \<and> (case map_of kvs (u ''required'') of
                   None \<Rightarrow> True
                 | Some (JList ks) \<Rightarrow> ks \<noteq> [] \<and> list_all is_str ks \<and> distinct ks
                 | Some _ \<Rightarrow> False)
          then Inr ()
          else Inl (SchemaError (u ''the schema is not valid under the schema of schemas''))
      | _ \<Rightarrow> Inl (SchemaError (u ''the schema is not of type object'')))"

definition example_validate :: "json \<Rightarrow> json \<Rightarrow> exn + unit" where
  "example_validate inst sch =
     (case example_check_schema sch of
        Inl x \<Rightarrow> Inl x
      | Inr _ \<Rightarrow>
          (case sch of
             JDict kvs \<Rightarrow>
               if (case map_of kvs (u ''type'') of
                     Some (JStr t) \<Rightarrow> \<not> example_type_ok t inst
                   | _ \<Rightarrow> False)
               then Inl (ValidationError (u ''the instance is not of the type''))
               else
                 (case (inst, map_of kvs (u ''required'')) of
                    (JDict ivs, Some (JList ks)) \<Rightarrow>
                      if list_all (\<lambda>k. case k of JStr n \<Rightarrow> map_of ivs n \<noteq> None | _ \<Rightarrow> True) ks
                      then Inr ()
                      else Inl (ValidationError (u ''a required property is missing''))
                  | _ \<Rightarrow> Inr ())
           | _ \<Rightarrow> Inr ()))"

definition example_ext :: ext where
  "example_ext =
     \<lparr>check_schema = example_check_schema,
      validate = example_validate,
      py_repr = (\<lambda>v. case v of JNull \<Rightarrow> u ''None'' | JInt i \<Rightarrow> str_int i | _ \<Rightarrow> u ''?''),
      float_text = (\<lambda>t. t),
      float_eq_int = (\<lambda>r i. False),
      decoder_depth = 990,
      encoder_depth = 990,
      int_max_str_digits = 4300,
      value_error_text = (\<lambda>b. u ''ValueError''),
      io_error_text = (\<lambda>p. u ''IOError'')\<rparr>"

text \<open>
  The repository of the end-to-end scenario: one cycle, one pack, one card, each file
  in canonical form, and three schemas that ask for an object.
\<close>

definition example_args :: args where
  "example_args =
     \<lparr>fix_formatting = False, verbose = 0, base_path = u ''/repo'',
      pack_path = u ''/repo/pack'', schema_path = u ''/repo/schema''\<rparr>"

definition cycles_text :: pystr where
  \<open>cycles_text =
     u ''[\<newline>    {\<newline>        "code": "core",\<newline>        "name": "Core Set"\<newline>    }\<newline>]\<newline>''\<close>

definition packs_text :: pystr where
  \<open>packs_text =
     u ''[\<newline>    {\<newline>        "code": "core",\<newline>        "cycle_code": "core",\<newline>        "name": "Core Set"\<newline>    }\<newline>]\<newline>''\<close>

definition cards_text :: pystr where
  \<open>cards_text =
     u ''[\<newline>    {\<newline>        "code": "01001",\<newline>        "name": "A Card",\<newline>        "pack_code": "core"\<newline>    }\<newline>]\<newline>''\<close>

definition schema_text :: pystr where
  \<open>schema_text = u ''{\<newline>    "type": "object"\<newline>}\<newline>''\<close>

definition example_cycle :: json where
  "example_cycle = JDict [(u ''code'', JStr (u ''core'')), (u ''name'', JStr (u ''Core Set''))]"

definition example_pack :: json where
  "example_pack =
     JDict [(u ''code'', JStr (u ''core'')), (u ''cycle_code'', JStr (u ''core'')),
            (u ''name'', JStr (u ''Core Set''))]"

definition example_card :: json where
  "example_card =
     JDict [(u ''code'', JStr (u ''01001'')), (u ''name'', JStr (u ''A Card'')),
            (u ''pack_code'', JStr (u ''core''))]"

definition example_schema :: json where
  "example_schema = JDict [(u ''type'', JStr (u ''object''))]"

definition plain_file :: "bytes \<Rightarrow> file_entry" where
  "plain_file bs = \<lparr>content = bs, readable = True, writable = True\<rparr>"

definition example_files :: "(pystr \<times> file_entry) list" where
  "example_files =
     [(u ''/repo/cycles.json'', plain_file cycles_text),
      (u ''/repo/packs.json'', plain_file packs_text),
      (u ''/repo/pack/core.json'', plain_file cards_text),
      (u ''/repo/schema/cycle_schema.json'', plain_file schema_text),
      (u ''/repo/schema/pack_schema.json'', plain_file schema_text),
      (u ''/repo/schema/card_schema.json'', plain_file schema_text)]"

definition start :: "(pystr \<times> file_entry) list \<Rightarrow> state" where
  "start files = \<lparr>formatting_errors = 0, validation_errors = 0, stdout = [], fs = map_of files\<rparr>"


section \<open>Basic facts\<close>

subsection \<open>What can be written\<close>

text \<open>
  \<open>shown\<close> and \<open>printed\<close> are the states after a \<open>verbose_print\<close> and a \<open>print\<close> that
  did not raise. A text without surrogates and above-range values can be written; the
  ASCII literals of the program, the decimal numbers and the summary line are such texts.
\<close>

definition shown :: "args \<Rightarrow> pystr \<Rightarrow> int \<Rightarrow> state \<Rightarrow> state" where
  "shown args text minimum_verbosity s =
     (if verbose args \<ge> minimum_verbosity then s\<lparr>stdout := stdout s @ text\<rparr> else s)"

definition printed :: "pystr \<Rightarrow> state \<Rightarrow> state" where
  "printed text s = s\<lparr>stdout := stdout s @ text @ [10]\<rparr>"

lemma encodable_Nil [simp]: "encodable []"
  by (simp add: encodable_def)

lemma encodable_Cons: "encodable (c # s) = (utf8_encode_char c \<noteq> None \<and> encodable s)"
  by (auto simp: encodable_def split: option.splits)

lemma encodable_append [simp]: "encodable (a @ b) = (encodable a \<and> encodable b)"
  by (induction a) (auto simp: encodable_Cons)

lemma encodable_small: "c < 0x800 \<Longrightarrow> utf8_encode_char c \<noteq> None"
  by (simp add: utf8_encode_char_def)

lemma encodable_ascii: "\<forall>c \<in> set s. c < 0x800 \<Longrightarrow> encodable s"
  by (induction s) (auto simp: encodable_Cons encodable_small)

lemma encodable_u [simp]: "encodable (u s)"
proof (rule encodable_ascii, rule ballI)
  fix c assume "c \<in> set (u s)"
  then obtain x where c: "c = of_char x"
    by (auto simp: u_def)
  have "(of_char x :: nat) mod 256 < 256"
    by (rule mod_less_divisor) simp
  then have "(of_char x :: nat) < 256"
    by (simp only: of_char_mod_256)
  then have "(of_char x :: nat) < 0x800"
    by (rule less_trans) simp
  then show "c < 0x800"
    by (simp only: c)
qed

lemma encodable_newline [simp]: "encodable [10]"
  by (simp add: encodable_Cons encodable_small)

lemma encodable_quoted [simp]: "encodable (quoted s) = encodable s"
  by (simp add: quoted_def encodable_Cons encodable_small)

lemma encodable_str_nat: "encodable (str_nat n)"
proof (induction n rule: str_nat.induct)
  case (1 n)
  show ?case
  proof (cases "n < 10")
    case True
    then show ?thesis
      by (subst str_nat.simps) (simp add: encodable_Cons encodable_small)
  next
    case False
    with 1 show ?thesis
      by (subst str_nat.simps) (simp add: encodable_Cons encodable_small)
  qed
qed

lemma encodable_str_int [simp]: "encodable (str_int i)"
  by (simp add: str_int_def encodable_Cons encodable_small encodable_str_nat)

lemma encodable_summary [simp]: "encodable (summary fe ve)"
  by (simp add: summary_def)

lemma stdout_write_ok [simp]:
  "encodable text \<Longrightarrow> stdout_write text s = Inr (s\<lparr>stdout := stdout s @ text\<rparr>)"
  by (simp add: stdout_write_def)

lemma verbose_print_ok [simp]:
  "encodable text \<Longrightarrow> verbose_print args text m s = Inr (shown args text m s)"
  by (simp add: verbose_print_def shown_def)

lemma verbose_print_quiet:
  "verbose args < m \<Longrightarrow> verbose_print args text m s = Inr (shown args text m s)"
  by (simp add: verbose_print_def shown_def)

lemma verbose_print_result:
  "verbose_print args text m s
   = (if m \<le> verbose args \<and> \<not> encodable text then Inl UnicodeEncodeError
      else Inr (shown args text m s))"
  by (simp add: verbose_print_def shown_def stdout_write_def)

lemma print_ok [simp]: "encodable text \<Longrightarrow> print text s = Inr (printed text s)"
  by (simp add: print_def printed_def)

lemma print_result:
  "print text s = (if encodable text then Inr (printed text s) else Inl UnicodeEncodeError)"
  by (simp add: print_def printed_def stdout_write_def)

lemma shown_counters [simp]:
  "validation_errors (shown args text m s) = validation_errors s"
  "formatting_errors (shown args text m s) = formatting_errors s"
  "fs (shown args text m s) = fs s"
  by (simp_all add: shown_def)

lemma printed_counters [simp]:
  "validation_errors (printed text s) = validation_errors s"
  "formatting_errors (printed text s) = formatting_errors s"
  "fs (printed text s) = fs s"
  by (simp_all add: printed_def)

lemma verbose_print_counters:
  assumes "verbose_print args text m s = Inr s'"
  shows "validation_errors s' = validation_errors s" "formatting_errors s' = formatting_errors s"
    "fs s' = fs s"
  using assms by (auto simp: verbose_print_result split: if_splits)

lemma print_counters:
  assumes "print text s = Inr s'"
  shows "validation_errors s' = validation_errors s" "formatting_errors s' = formatting_errors s"
    "fs s' = fs s"
  using assms by (auto simp: print_result split: if_splits)

subsection \<open>Fields\<close>

lemma py_getitem_dict: "py_getitem p k = Inr v \<Longrightarrow> \<exists>kvs. p = JDict kvs"
  by (cases p) auto

lemma py_get_dict: "\<exists>v. py_get (JDict kvs) k = Inr v"
  by (simp split: option.splits)

lemma py_get_of_getitem: "py_getitem p k = Inr v \<Longrightarrow> py_get p k = Inr v"
  by (cases p) (auto split: option.splits)

lemma start_reset:
  "(start files)\<lparr>formatting_errors := 0, validation_errors := 0\<rparr> = start files"
  by (simp add: start_def)

section \<open>Evaluating the examples\<close>

lemma newline_indent_0: "newline_indent 0 = [10]"
  by (simp add: newline_indent_def)

lemma newline_indent_Suc: "newline_indent (Suc n) = newline_indent n @ [32, 32, 32, 32]"
proof -
  have "replicate (4 * Suc n) (32::nat) = replicate (4 * n) 32 @ replicate 4 32"
    by (simp add: replicate_add [symmetric])
  moreover have "replicate 4 (32::nat) = [32, 32, 32, 32]"
    by (simp add: numeral_eq_Suc)
  ultimately show ?thesis by (simp add: newline_indent_def)
qed

lemma example_limits:
  "decoder_depth example_ext = 990" "encoder_depth example_ext = 990"
  "int_max_str_digits example_ext = 4300"
  by (simp_all add: example_ext_def)

lemmas loads_eval = json_loads_lim_def example_limits int_refused_def u_def skip_ws_def is_ws_def
  match_number_def match_integer_def match_frac_def match_exp_def is_digit_def py_int_def
  int_of_digits_def py_dict_def cons_chr_def hexval_def backslash_def

lemmas dumps_eval = format_json_def json_dumps_def newline_indent_0 newline_indent_Suc
  encode_basestring_def escape_char_def str_int_def u_def

lemma utf8_decode_ascii: "\<forall>c \<in> set s. c < 0x80 \<Longrightarrow> utf8_decode s = Some s"
  by (induction s) auto

lemma decode_and_load_Parsed:
  assumes "utf8_decode bs = Some raw" and "json_loads_lim X raw = Parsed v"
  shows "decode_and_load X bs = Parsed (raw, v)"
  using assms by (simp add: decode_and_load_def)

lemma loads_cycles: "json_loads_lim example_ext cycles_text = Parsed (JList [example_cycle])"
  by (simp add: cycles_text_def example_cycle_def loads_eval)
lemma loads_packs: "json_loads_lim example_ext packs_text = Parsed (JList [example_pack])"
  by (simp add: packs_text_def example_pack_def loads_eval)
lemma loads_cards: "json_loads_lim example_ext cards_text = Parsed (JList [example_card])"
  by (simp add: cards_text_def example_card_def loads_eval)
lemma loads_schema: "json_loads_lim example_ext schema_text = Parsed example_schema"
  by (simp add: schema_text_def example_schema_def loads_eval)

lemma format_cycles: "format_json (JList [example_cycle]) = cycles_text"
  by (simp add: cycles_text_def example_cycle_def dumps_eval)
lemma format_packs: "format_json (JList [example_pack]) = packs_text"
  by (simp add: packs_text_def example_pack_def dumps_eval)
lemma format_cards: "format_json (JList [example_card]) = cards_text"
  by (simp add: cards_text_def example_card_def dumps_eval)
lemma format_schema: "format_json example_schema = schema_text"
  by (simp add: schema_text_def example_schema_def dumps_eval)

lemma nesting_examples:
  "nesting example_cycle = 1" "nesting example_pack = 1"
  "nesting example_card = 1" "nesting example_schema = 1"
  by (simp_all add: example_cycle_def example_pack_def example_card_def example_schema_def)

lemma decode_texts:
  "utf8_decode cycles_text = Some cycles_text" "utf8_decode packs_text = Some packs_text"
  "utf8_decode cards_text = Some cards_text" "utf8_decode schema_text = Some schema_text"
  by (rule utf8_decode_ascii, simp add: cycles_text_def packs_text_def cards_text_def schema_text_def u_def)+

lemma quiet_print [simp]: "0 < m \<Longrightarrow> verbose_print example_args text m s = Inr s"
  by (simp add: verbose_print_def example_args_def)

lemma shown_example [simp]:
  "0 < m \<Longrightarrow> shown example_args text m s = s"
  "shown example_args text 0 s = s\<lparr>stdout := stdout s @ text\<rparr>"
  by (simp_all add: shown_def example_args_def)

lemma example_paths:
  "path_join (base_path example_args) (u ''cycles.json'') = u ''/repo/cycles.json''"
  "path_join (base_path example_args) (u ''packs.json'') = u ''/repo/packs.json''"
  "path_join (schema_path example_args) (u ''cycle_schema.json'') = u ''/repo/schema/cycle_schema.json''"
  "path_join (schema_path example_args) (u ''pack_schema.json'') = u ''/repo/schema/pack_schema.json''"
  "path_join (schema_path example_args) (u ''card_schema.json'') = u ''/repo/schema/card_schema.json''"
  "path_join (pack_path example_args) (u ''core'' @ u ''.json'') = u ''/repo/pack/core.json''"
  by (simp_all add: path_join_def example_args_def u_def)

text \<open>A canonical file is loaded without a trace when the verbosity is 0.\<close>

lemma load_plain:
  assumes "fs s path = Some (plain_file raw)" and "utf8_decode raw = Some raw"
    and "json_loads_lim X raw = Parsed v" and "nesting v \<le> encoder_depth X"
    and "format_json v = raw"
  shows "load_json_file X example_args path s = (Inr v, s)"
  using assms
  by (simp add: load_json_file_def plain_file_def decode_and_load_Parsed [where raw = raw])

text \<open>
  What \<open>load_json_file\<close> does when \<open>ValueError\<close> is raised on the bytes of a readable
  file, and the two lines can be written: it returns \<open>None\<close>, the validation counter
  grows by exactly one, and the formatting counter and the files are unchanged.
\<close>

lemma load_json_file_refused:
  assumes "fs s path = Some f" and "readable f"
    and "decode_and_load X (content f) = Refused"
    and "encodable path" and "encodable (value_error_text X (content f))"
  shows "load_json_file X args path s
         = (Inr JNull,
            printed (value_error_text X (content f))
              ((shown args (path @ u '': File is not valid JSON.\<newline>'') 0 s)
                 \<lparr>validation_errors := validation_errors s + 1\<rparr>))"
  using assms by (simp add: load_json_file_def)

lemma load_texts:
  "fs s path = Some (plain_file cycles_text)
   \<Longrightarrow> load_json_file example_ext example_args path s = (Inr (JList [example_cycle]), s)"
  "fs s path = Some (plain_file packs_text)
   \<Longrightarrow> load_json_file example_ext example_args path s = (Inr (JList [example_pack]), s)"
  "fs s path = Some (plain_file cards_text)
   \<Longrightarrow> load_json_file example_ext example_args path s = (Inr (JList [example_card]), s)"
  "fs s path = Some (plain_file schema_text)
   \<Longrightarrow> load_json_file example_ext example_args path s = (Inr example_schema, s)"
  by (simp_all add: load_plain decode_texts loads_cycles loads_packs loads_cards loads_schema
      format_cycles format_packs format_cards format_schema nesting_examples example_limits)

lemma example_lookup:
  "fs (start example_files) (u ''/repo/cycles.json'') = Some (plain_file cycles_text)"
  "fs (start example_files) (u ''/repo/packs.json'') = Some (plain_file packs_text)"
  "fs (start example_files) (u ''/repo/pack/core.json'') = Some (plain_file cards_text)"
  "fs (start example_files) (u ''/repo/schema/cycle_schema.json'') = Some (plain_file schema_text)"
  "fs (start example_files) (u ''/repo/schema/pack_schema.json'') = Some (plain_file schema_text)"
  "fs (start example_files) (u ''/repo/schema/card_schema.json'') = Some (plain_file schema_text)"
  by (simp_all add: start_def example_files_def u_def)

lemma example_engine:
  "check_schema example_ext example_schema = Inr ()"
  "validate example_ext example_cycle example_schema = Inr ()"
  "validate example_ext example_pack example_schema = Inr ()"
  "validate example_ext example_card example_schema = Inr ()"
  by (simp_all add: example_ext_def example_check_schema_def example_validate_def
      example_schema_def example_type_ok_def example_cycle_def example_pack_def example_card_def u_def)

lemma example_fields:
  "py_get example_cycle (u ''name'') = Inr (JStr (u ''Core Set''))"
  "py_get example_cycle (u ''code'') = Inr (JStr (u ''core''))"
  "py_getitem example_cycle (u ''code'') = Inr (JStr (u ''core''))"
  "py_get example_pack (u ''name'') = Inr (JStr (u ''Core Set''))"
  "py_get example_pack (u ''code'') = Inr (JStr (u ''core''))"
  "py_getitem example_pack (u ''name'') = Inr (JStr (u ''Core Set''))"
  "py_getitem example_pack (u ''code'') = Inr (JStr (u ''core''))"
  "py_getitem example_pack (u ''cycle_code'') = Inr (JStr (u ''core''))"
  "py_get example_card (u ''name'') = Inr (JStr (u ''A Card''))"
  "py_get example_card (u ''code'') = Inr (JStr (u ''01001''))"
  "py_getitem example_card (u ''name'') = Inr (JStr (u ''A Card''))"
  "py_getitem example_card (u ''code'') = Inr (JStr (u ''01001''))"
  "py_getitem example_card (u ''pack_code'') = Inr (JStr (u ''core''))"
  by (simp_all add: example_cycle_def example_pack_def example_card_def u_def)

lemma example_truthy: "truthy example_schema"
  by (simp add: example_schema_def)

lemma summary_0_0: "summary 0 0 = u ''Found 0 formatting and 0 validation errors\<newline>''"
  by (simp add: summary_def str_int_def str_nat.simps u_def)

lemma summary_0_1: "summary 0 1 = u ''Found 0 formatting and 1 validation errors\<newline>''"
  by (simp add: summary_def str_int_def str_nat.simps u_def)

text \<open>The stages of the scenario, each from the files it reads.\<close>

lemma example_validate_cycles:
  assumes "fs s (u ''/repo/schema/cycle_schema.json'') = Some (plain_file schema_text)"
  shows "validate_cycles example_ext example_args (JList [example_cycle]) s = (Inr True, s)"
  using assms
  by (simp add: validate_cycles_def example_paths load_texts example_truthy
      check_json_schema_def example_engine validate_cycles_body_def validate_cycles_try_def
      example_fields)

lemma example_load_cycles:
  assumes "fs s (u ''/repo/cycles.json'') = Some (plain_file cycles_text)"
    and "fs s (u ''/repo/schema/cycle_schema.json'') = Some (plain_file schema_text)"
  shows "load_cycles example_ext example_args s = (Inr (JList [example_cycle]), s)"
  using assms
  by (simp add: load_cycles_def example_paths load_texts example_validate_cycles)

lemma example_validate_packs:
  assumes "fs s (u ''/repo/schema/pack_schema.json'') = Some (plain_file schema_text)"
  shows "validate_packs example_ext example_args (JList [example_pack]) (JList [example_cycle]) s
         = (Inr True, s)"
  using assms
  by (simp add: validate_packs_def example_paths load_texts example_truthy
      check_json_schema_def example_engine validate_packs_body_def validate_packs_try_def
      example_fields custom_pack_check_def)

lemma example_load_pack_index:
  assumes "fs s (u ''/repo/packs.json'') = Some (plain_file packs_text)"
    and "fs s (u ''/repo/schema/pack_schema.json'') = Some (plain_file schema_text)"
    and "fs s (u ''/repo/pack/core.json'') = Some (plain_file raw)"
  shows "load_pack_index example_ext example_args (JList [example_cycle]) s
         = (Inr (JList [example_pack]), s)"
  using assms
  by (simp add: load_pack_index_def example_paths load_texts example_validate_packs
      example_fields check_file_access_def plain_file_def)

lemma example_validate_cards:
  assumes "fs s (u ''/repo/schema/card_schema.json'') = Some (plain_file schema_text)"
    and "fs s (u ''/repo/pack/core.json'') = Some (plain_file cards_text)"
  shows "validate_cards example_ext example_args (JList [example_pack]) s = (Inr (), s)"
  using assms
  by (simp add: validate_cards_def example_paths load_texts example_truthy
      check_json_schema_def example_engine validate_cards_body_def example_fields
      validate_card_def validate_card_try_def custom_card_check_def)

lemma example_stages:
  "main_stages example_ext example_args (start example_files) = (Inr (), start example_files)"
  by (simp add: main_stages_def start_reset example_lookup example_load_cycles
      example_load_pack_index example_validate_cards)

section \<open>Two runs that find defects\<close>

text \<open>The repository of the scenario with a pack schema whose \<open>type\<close> is a number.\<close>

definition bad_schema_text :: pystr where
  \<open>bad_schema_text = u ''{\<newline>    "type": 5\<newline>}\<newline>''\<close>

definition bad_schema :: json where
  "bad_schema = JDict [(u ''type'', JInt 5)]"

definition bad_schema_files :: "(pystr \<times> file_entry) list" where
  "bad_schema_files =
     [(u ''/repo/cycles.json'', plain_file cycles_text),
      (u ''/repo/packs.json'', plain_file packs_text),
      (u ''/repo/pack/core.json'', plain_file cards_text),
      (u ''/repo/schema/cycle_schema.json'', plain_file schema_text),
      (u ''/repo/schema/pack_schema.json'', plain_file bad_schema_text),
      (u ''/repo/schema/card_schema.json'', plain_file schema_text)]"

lemma bad_schema_lookup:
  "fs (start bad_schema_files) (u ''/repo/cycles.json'') = Some (plain_file cycles_text)"
  "fs (start bad_schema_files) (u ''/repo/packs.json'') = Some (plain_file packs_text)"
  "fs (start bad_schema_files) (u ''/repo/schema/cycle_schema.json'') = Some (plain_file schema_text)"
  "fs (start bad_schema_files) (u ''/repo/schema/pack_schema.json'') = Some (plain_file bad_schema_text)"
  by (simp_all add: start_def bad_schema_files_def u_def)

lemma load_bad_schema:
  assumes "fs s path = Some (plain_file bad_schema_text)"
  shows "load_json_file example_ext example_args path s = (Inr bad_schema, s)"
proof -
  have "utf8_decode bad_schema_text = Some bad_schema_text"
    by (simp add: utf8_decode_ascii bad_schema_text_def u_def)
  moreover have "json_loads_lim example_ext bad_schema_text = Parsed bad_schema"
    by (simp add: bad_schema_text_def bad_schema_def loads_eval)
  moreover have "format_json bad_schema = bad_schema_text"
    by (simp add: bad_schema_text_def bad_schema_def dumps_eval str_nat.simps)
  moreover have "nesting bad_schema \<le> encoder_depth example_ext"
    by (simp add: bad_schema_def example_limits)
  ultimately show ?thesis
    using assms by (simp add: load_plain)
qed

lemma bad_schema_check:
  "check_schema example_ext bad_schema
   = Inl (SchemaError (u ''the schema is not valid under the schema of schemas''))"
  "truthy bad_schema"
  by (simp_all add: example_ext_def example_check_schema_def bad_schema_def)

lemma bad_schema_stages:
  "main_stages example_ext example_args (start bad_schema_files)
   = (Inr (),
      (start bad_schema_files)
        \<lparr>validation_errors := 1,
         stdout :=
           u ''/repo/schema/pack_schema.json: Schema file is not valid Draft 4 JSON schema.\<newline>''
           @ u ''the schema is not valid under the schema of schemas\<newline>''
           @ u ''Couldn't open packs file correctly, skipping card validation...\<newline>''\<rparr>)"
proof -
  let ?s = "start bad_schema_files"
  have v: "validate_packs example_ext example_args (JList [example_pack]) (JList [example_cycle]) ?s
           = (Inr False,
              printed (u ''the schema is not valid under the schema of schemas'')
                ((shown example_args
                    (u ''/repo/schema/pack_schema.json''
                     @ u '': Schema file is not valid Draft 4 JSON schema.\<newline>'') 0 ?s)
                   \<lparr>validation_errors := validation_errors ?s + 1\<rparr>))"
    by (simp add: validate_packs_def example_paths load_bad_schema bad_schema_lookup
        bad_schema_check check_json_schema_def)
  have p: "load_pack_index example_ext example_args (JList [example_cycle]) ?s
           = (Inr JNull,
              printed (u ''the schema is not valid under the schema of schemas'')
                ((shown example_args
                    (u ''/repo/schema/pack_schema.json''
                     @ u '': Schema file is not valid Draft 4 JSON schema.\<newline>'') 0 ?s)
                   \<lparr>validation_errors := validation_errors ?s + 1\<rparr>))"
    by (simp add: load_pack_index_def example_paths load_texts bad_schema_lookup v)
  show ?thesis
    by (simp add: main_stages_def start_reset example_load_cycles bad_schema_lookup p)
      (simp add: start_def printed_def u_def)
qed

text \<open>
  The repository of the scenario with a cycle index on one line: the file parses and
  is not in canonical form.
\<close>

definition compact_text :: pystr where
  \<open>compact_text = u ''[{"code": "core", "name": "Core Set"}]''\<close>

definition compact_files :: "(pystr \<times> file_entry) list" where
  "compact_files =
     [(u ''/repo/cycles.json'', plain_file compact_text),
      (u ''/repo/packs.json'', plain_file packs_text),
      (u ''/repo/pack/core.json'', plain_file cards_text),
      (u ''/repo/schema/cycle_schema.json'', plain_file schema_text),
      (u ''/repo/schema/pack_schema.json'', plain_file schema_text),
      (u ''/repo/schema/card_schema.json'', plain_file schema_text)]"

lemma compact_lookup:
  "fs (start compact_files) (u ''/repo/cycles.json'') = Some (plain_file compact_text)"
  "map_of compact_files (u ''/repo/packs.json'') = Some (plain_file packs_text)"
  "map_of compact_files (u ''/repo/pack/core.json'') = Some (plain_file cards_text)"
  "map_of compact_files (u ''/repo/schema/cycle_schema.json'') = Some (plain_file schema_text)"
  "map_of compact_files (u ''/repo/schema/pack_schema.json'') = Some (plain_file schema_text)"
  "map_of compact_files (u ''/repo/schema/card_schema.json'') = Some (plain_file schema_text)"
  by (simp_all add: start_def compact_files_def u_def)

lemma load_compact:
  "load_json_file example_ext example_args (u ''/repo/cycles.json'') (start compact_files)
   = (Inr (JList [example_cycle]),
      (start compact_files)
        \<lparr>formatting_errors := 1,
         stdout := u ''/repo/cycles.json: File is not correctly formatted JSON.\<newline>''\<rparr>)"
proof -
  have d: "utf8_decode compact_text = Some compact_text"
    by (simp add: utf8_decode_ascii compact_text_def u_def)
  have l: "json_loads_lim example_ext compact_text = Parsed (JList [example_cycle])"
    by (simp add: compact_text_def example_cycle_def loads_eval)
  have n: "cycles_text \<noteq> compact_text"
    by (simp add: cycles_text_def compact_text_def u_def)
  show ?thesis
    by (simp add: load_json_file_def compact_lookup plain_file_def
        decode_and_load_Parsed [OF d l] nesting_examples example_limits format_cycles n)
      (simp add: example_args_def start_def u_def)
qed

lemma compact_stages:
  "main_stages example_ext example_args (start compact_files)
   = (Inr (),
      (start compact_files)
        \<lparr>formatting_errors := 1,
         stdout := u ''/repo/cycles.json: File is not correctly formatted JSON.\<newline>''\<rparr>)"
proof -
  let ?s = "(start compact_files)
        \<lparr>formatting_errors := 1,
         stdout := u ''/repo/cycles.json: File is not correctly formatted JSON.\<newline>''\<rparr>"
  have f: "fs ?s = map_of compact_files"
    by (simp add: start_def)
  have c: "load_cycles example_ext example_args (start compact_files)
           = (Inr (JList [example_cycle]), ?s)"
    by (simp add: load_cycles_def example_paths load_compact example_validate_cycles f compact_lookup)
  show ?thesis
    by (simp add: main_stages_def start_reset c example_load_pack_index example_validate_cards
        f compact_lookup)
qed

section \<open>The outcome of a run\<close>

text \<open>
  C1. When a run reaches the end of \<open>main\<close>, the line \<open>Found\<close> \<open>n\<close>
  \<open>formatting and\<close> \<open>m\<close> \<open>validation errors\<close>, with the two counters in decimal, is
  written, and then the process exits with code 0 if both counters are zero and with
  code 1 otherwise.
\<close>

theorem main_exit_code:
  assumes "main_stages X args s = (Inr (), s')"
  shows "main X args s
         = (Exit (if formatting_errors s' = 0 \<and> validation_errors s' = 0 then 0 else 1),
            s'\<lparr>stdout :=
                 stdout s' @ u ''Found '' @ str_int (formatting_errors s')
                 @ u '' formatting and '' @ str_int (validation_errors s')
                 @ u '' validation errors\<newline>''\<rparr>)
         \<and> (fst (main X args s) = Exit 0)
             = (formatting_errors s' = 0 \<and> validation_errors s' = 0)
         \<and> (fst (main X args s) = Exit 1)
             = (\<not> (formatting_errors s' = 0 \<and> validation_errors s' = 0))"
proof -
  have "stdout_write (summary (formatting_errors s') (validation_errors s')) s'
        = Inr (s'\<lparr>stdout :=
                 stdout s' @ u ''Found '' @ str_int (formatting_errors s')
                 @ u '' formatting and '' @ str_int (validation_errors s')
                 @ u '' validation errors\<newline>''\<rparr>)"
    by (simp add: stdout_write_def) (simp add: summary_def)
  with assms show ?thesis
    by (auto simp: main_def)
qed

theorem main_exit_code_witness:
  "main_stages example_ext example_args (start example_files) = (Inr (), start example_files)
   \<and> main example_ext example_args (start example_files)
       = (Exit 0, (start example_files)
            \<lparr>stdout := u ''Found 0 formatting and 0 validation errors\<newline>''\<rparr>)
   \<and> main example_ext example_args (start bad_schema_files)
       = (Exit 1, (start bad_schema_files)
            \<lparr>validation_errors := 1,
             stdout :=
               u ''/repo/schema/pack_schema.json: Schema file is not valid Draft 4 JSON schema.\<newline>''
               @ u ''the schema is not valid under the schema of schemas\<newline>''
               @ u ''Couldn't open packs file correctly, skipping card validation...\<newline>''
               @ u ''Found 0 formatting and 1 validation errors\<newline>''\<rparr>)
   \<and> main example_ext example_args (start compact_files)
       = (Exit 1, (start compact_files)
            \<lparr>formatting_errors := 1,
             stdout :=
               u ''/repo/cycles.json: File is not correctly formatted JSON.\<newline>''
               @ u ''Found 1 formatting and 0 validation errors\<newline>''\<rparr>)"
proof -
  have n: "str_int 0 = u ''0''" "str_int 1 = u ''1''"
    by (simp_all add: str_int_def str_nat.simps u_def)
  have a: "main example_ext example_args (start example_files)
       = (Exit 0, (start example_files)
            \<lparr>stdout := u ''Found 0 formatting and 0 validation errors\<newline>''\<rparr>)"
    using main_exit_code [OF example_stages]
    by (simp add: start_def n) (simp add: u_def)
  have b: "main example_ext example_args (start bad_schema_files)
       = (Exit 1, (start bad_schema_files)
            \<lparr>validation_errors := 1,
             stdout :=
               u ''/repo/schema/pack_schema.json: Schema file is not valid Draft 4 JSON schema.\<newline>''
               @ u ''the schema is not valid under the schema of schemas\<newline>''
               @ u ''Couldn't open packs file correctly, skipping card validation...\<newline>''
               @ u ''Found 0 formatting and 1 validation errors\<newline>''\<rparr>)"
    using main_exit_code [OF bad_schema_stages]
    by (simp add: start_def n) (simp add: u_def)
  have c: "main example_ext example_args (start compact_files)
       = (Exit 1, (start compact_files)
            \<lparr>formatting_errors := 1,
             stdout :=
               u ''/repo/cycles.json: File is not correctly formatted JSON.\<newline>''
               @ u ''Found 1 formatting and 0 validation errors\<newline>''\<rparr>)"
    using main_exit_code [OF compact_stages]
    by (simp add: start_def n) (simp add: u_def)
  from a b c example_stages show ?thesis by simp
qed

section \<open>Loading a file that is not JSON\<close>

text \<open>
  A text that is not JSON can raise \<open>RecursionError\<close> before \<open>json.loads\<close> gets to what
  is wrong with it; then \<open>load_json_file\<close> records nothing, and the exception leaves it.
\<close>

lemma load_json_file_too_deep:
  assumes "fs s path = Some f" and "readable f"
    and "content f = replicate k 0x5B" and "decoder_depth X < k"
  shows "load_json_file X args path s = (Inl RecursionError, s)"
proof -
  have "utf8_decode (replicate k (0x5B::nat)) = Some (replicate k 0x5B)"
    by (rule utf8_decode_ascii) simp
  with assms show ?thesis
    by (simp add: load_json_file_def decode_and_load_def json_loads_lim_brackets)
qed

text \<open>
  The repository of the scenario with a cycle index of \<open>k\<close> opening brackets and
  nothing else.
\<close>

definition deep_files :: "nat \<Rightarrow> (pystr \<times> file_entry) list" where
  "deep_files k =
     [(u ''/repo/cycles.json'', plain_file (replicate k 0x5B)),
      (u ''/repo/packs.json'', plain_file packs_text),
      (u ''/repo/pack/core.json'', plain_file cards_text),
      (u ''/repo/schema/cycle_schema.json'', plain_file schema_text),
      (u ''/repo/schema/pack_schema.json'', plain_file schema_text),
      (u ''/repo/schema/card_schema.json'', plain_file schema_text)]"

lemma deep_run:
  assumes "decoder_depth X < k"
  shows "load_json_file X example_args (u ''/repo/cycles.json'') (start (deep_files k))
         = (Inl RecursionError, start (deep_files k))"
    and "main X example_args (start (deep_files k))
         = (Uncaught RecursionError, start (deep_files k))"
proof -
  have f: "fs (start (deep_files k)) (u ''/repo/cycles.json'') = Some (plain_file (replicate k 0x5B))"
    by (simp add: start_def deep_files_def)
  show l: "load_json_file X example_args (u ''/repo/cycles.json'') (start (deep_files k))
       = (Inl RecursionError, start (deep_files k))"
    by (rule load_json_file_too_deep [OF f _ _ assms]) (simp_all add: plain_file_def)
  have "main_stages X example_args (start (deep_files k))
        = (Inl RecursionError, start (deep_files k))"
    by (simp add: main_stages_def start_reset load_cycles_def example_paths l
        verbose_print_quiet example_args_def [THEN arg_cong, of verbose] shown_def)
  then show "main X example_args (start (deep_files k))
       = (Uncaught RecursionError, start (deep_files k))"
    by (simp add: main_def)
qed

text \<open>
  C3 fails on the code. A file of opening brackets is not JSON, as no bracket is
  closed. When the brackets are more than the arrays that \<open>json.loads\<close> can enter,
  whatever that number is, \<open>json.loads\<close> raises \<open>RecursionError\<close>, which
  \<open>except ValueError\<close> does not catch: \<open>load_json_file\<close> returns nothing and counts
  nothing, and the run ends there with a traceback. A thousand brackets do it under
  the default recursion limit.
\<close>

theorem deep_file_abort:
  "utf8_decode (replicate k 0x5B) = Some (replicate k 0x5B)
   \<and> json_loads X (replicate k 0x5B) = None
   \<and> json_loads_lim X (replicate (Suc (decoder_depth X + n)) 0x5B) = TooDeep
   \<and> load_json_file X example_args (u ''/repo/cycles.json'')
         (start (deep_files (Suc (decoder_depth X + n))))
       = (Inl RecursionError, start (deep_files (Suc (decoder_depth X + n))))
   \<and> main X example_args (start (deep_files (Suc (decoder_depth X + n))))
       = (Uncaught RecursionError, start (deep_files (Suc (decoder_depth X + n))))
   \<and> load_json_file example_ext example_args (u ''/repo/cycles.json'') (start (deep_files 1000))
       = (Inl RecursionError, start (deep_files 1000))
   \<and> main example_ext example_args (start (deep_files 1000))
       = (Uncaught RecursionError, start (deep_files 1000))"
proof -
  have d: "utf8_decode (replicate k (0x5B::nat)) = Some (replicate k 0x5B)"
    by (rule utf8_decode_ascii) simp
  have g: "decoder_depth X < Suc (decoder_depth X + n)"
    by simp
  have e: "decoder_depth example_ext < 1000"
    by (simp add: example_limits)
  from d json_loads_brackets [of X k] json_loads_lim_brackets [OF g] deep_run [OF g] deep_run [OF e]
  show ?thesis by simp
qed

section \<open>A schema that is a false value\<close>

text \<open>
  C10. A schema file that parses to a false value, such as \<open>{}\<close>, ends the stage
  that needs it at once, as a failed load (\<open>None\<close>, a false value too) does: no item
  is validated and the validation counter stays as the load left it.
\<close>

theorem falsy_schema_skips_stage:
  assumes "\<not> truthy schema"
  shows "(load_json_file X args (path_join (schema_path args) (u ''card_schema.json'')) s
            = (Inr schema, s1)
          \<longrightarrow> validate_cards X args packs_data s = (Inr (), s1))
       \<and> (load_json_file X args (path_join (schema_path args) (u ''cycle_schema.json''))
              (shown args (u ''Validating cycle index file...\<newline>'') 1 s)
            = (Inr schema, s1)
          \<longrightarrow> validate_cycles X args cycles_data s
              = (Inr False,
                 if isinstance_list cycles_data then s1
                 else shown args
                        (u ''Insides of cycle index file are not a list!\<newline>'') 0 s1)
            \<and> validation_errors (snd (validate_cycles X args cycles_data s))
                = validation_errors s1)
       \<and> (load_json_file X args (path_join (schema_path args) (u ''pack_schema.json''))
              (shown args (u ''Validating pack index file...\<newline>'') 1 s)
            = (Inr schema, s1)
          \<longrightarrow> validate_packs X args packs_data cycles_data s
              = (Inr False,
                 if isinstance_list packs_data then s1
                 else shown args
                        (u ''Insides of pack index file are not a list!\<newline>'') 0 s1)
            \<and> validation_errors (snd (validate_packs X args packs_data cycles_data s))
                = validation_errors s1)"
  using assms
  by (simp add: validate_cards_def validate_cycles_def validate_packs_def)

text \<open>
  The repository of the scenario with the three schemas replaced by \<open>{}\<close>, a Draft 4
  schema that accepts everything.
\<close>

definition empty_schema_files :: "(pystr \<times> file_entry) list" where
  "empty_schema_files =
     [(u ''/repo/cycles.json'', plain_file cycles_text),
      (u ''/repo/packs.json'', plain_file packs_text),
      (u ''/repo/pack/core.json'', plain_file cards_text),
      (u ''/repo/schema/cycle_schema.json'', plain_file (u ''{}\<newline>'')),
      (u ''/repo/schema/pack_schema.json'', plain_file (u ''{}\<newline>'')),
      (u ''/repo/schema/card_schema.json'', plain_file (u ''{}\<newline>''))]"

lemma empty_schema_loads:
  assumes "fs s = map_of empty_schema_files"
  shows "load_json_file example_ext example_args (u ''/repo/schema/cycle_schema.json'') s
         = (Inr (JDict []), s)"
    and "load_json_file example_ext example_args (u ''/repo/schema/pack_schema.json'') s
         = (Inr (JDict []), s)"
    and "load_json_file example_ext example_args (u ''/repo/schema/card_schema.json'') s
         = (Inr (JDict []), s)"
proof -
  have d: "utf8_decode (u ''{}\<newline>'') = Some (u ''{}\<newline>'')"
    by (simp add: utf8_decode_ascii u_def)
  have l: "json_loads_lim example_ext (u ''{}\<newline>'') = Parsed (JDict [])"
    by (simp add: loads_eval)
  have f: "format_json (JDict []) = u ''{}\<newline>''"
    by (simp add: dumps_eval)
  have n: "nesting (JDict []) \<le> encoder_depth example_ext"
    by (simp add: example_limits)
  have m: "fs s (u ''/repo/schema/cycle_schema.json'') = Some (plain_file (u ''{}\<newline>''))"
    "fs s (u ''/repo/schema/pack_schema.json'') = Some (plain_file (u ''{}\<newline>''))"
    "fs s (u ''/repo/schema/card_schema.json'') = Some (plain_file (u ''{}\<newline>''))"
    by (simp_all add: assms empty_schema_files_def u_def)
  show "load_json_file example_ext example_args (u ''/repo/schema/cycle_schema.json'') s
         = (Inr (JDict []), s)"
    and "load_json_file example_ext example_args (u ''/repo/schema/pack_schema.json'') s
         = (Inr (JDict []), s)"
    and "load_json_file example_ext example_args (u ''/repo/schema/card_schema.json'') s
         = (Inr (JDict []), s)"
    by (rule load_plain [OF _ d l n f], rule m)+
qed

theorem falsy_schema_skips_stage_witness:
  "\<not> truthy (JDict [])
   \<and> check_schema example_ext (JDict []) = Inr ()
   \<and> validate_cards example_ext example_args (JList [example_pack]) (start empty_schema_files)
       = (Inr (), start empty_schema_files)
   \<and> validate_cycles example_ext example_args (JList [example_cycle]) (start empty_schema_files)
       = (Inr False, start empty_schema_files)
   \<and> validate_packs example_ext example_args (JList [example_pack]) (JList [example_cycle])
         (start empty_schema_files)
       = (Inr False, start empty_schema_files)"
proof -
  have f: "fs (start empty_schema_files) = map_of empty_schema_files"
    by (simp add: start_def)
  have t: "\<not> truthy (JDict [])" by simp
  have c: "check_schema example_ext (JDict []) = Inr ()"
    by (simp add: example_ext_def example_check_schema_def)
  show ?thesis
    using falsy_schema_skips_stage [OF t, where X = example_ext and args = example_args
        and s = "start empty_schema_files" and ?s1.0 = "start empty_schema_files"
        and packs_data = "JList [example_pack]" and cycles_data = "JList [example_cycle]"]
    by (simp add: example_paths empty_schema_loads [OF f] c)
qed

section \<open>A pack schema that is not a schema\<close>

text \<open>
  The repository of the scenario with \<open>[]\<close> as the pack schema: the file parses, and
  a list is no Draft 4 schema.
\<close>

definition list_schema_files :: "(pystr \<times> file_entry) list" where
  "list_schema_files =
     [(u ''/repo/cycles.json'', plain_file cycles_text),
      (u ''/repo/packs.json'', plain_file packs_text),
      (u ''/repo/pack/core.json'', plain_file cards_text),
      (u ''/repo/schema/cycle_schema.json'', plain_file schema_text),
      (u ''/repo/schema/pack_schema.json'', plain_file (u ''[]\<newline>'')),
      (u ''/repo/schema/card_schema.json'', plain_file schema_text)]"

lemma list_schema_lookup:
  "fs (start list_schema_files) (u ''/repo/cycles.json'') = Some (plain_file cycles_text)"
  "fs (start list_schema_files) (u ''/repo/packs.json'') = Some (plain_file packs_text)"
  "fs (start list_schema_files) (u ''/repo/schema/cycle_schema.json'') = Some (plain_file schema_text)"
  "fs (start list_schema_files) (u ''/repo/schema/pack_schema.json'') = Some (plain_file (u ''[]\<newline>''))"
  by (simp_all add: start_def list_schema_files_def u_def)

lemma load_empty_list:
  assumes "fs s path = Some (plain_file (u ''[]\<newline>''))"
  shows "load_json_file example_ext example_args path s = (Inr (JList []), s)"
proof -
  have "utf8_decode (u ''[]\<newline>'') = Some (u ''[]\<newline>'')"
    by (simp add: utf8_decode_ascii u_def)
  moreover have "json_loads_lim example_ext (u ''[]\<newline>'') = Parsed (JList [])"
    by (simp add: loads_eval)
  moreover have "format_json (JList []) = u ''[]\<newline>''"
    by (simp add: dumps_eval)
  moreover have "nesting (JList []) \<le> encoder_depth example_ext"
    by (simp add: example_limits)
  ultimately show ?thesis
    using assms by (simp add: load_plain)
qed

text \<open>
  C7 as stated fails: with this pack schema the run validates no pack and records no
  validation defect at all; it ends with exit code 0.
\<close>

theorem invalid_pack_schema_counterexample:
  "check_schema example_ext (JList []) = Inl (SchemaError (u ''the schema is not of type object''))
   \<and> load_json_file example_ext example_args (u ''/repo/schema/pack_schema.json'')
         (start list_schema_files)
       = (Inr (JList []), start list_schema_files)
   \<and> validate_packs example_ext example_args (JList [example_pack]) (JList [example_cycle])
         (start list_schema_files)
       = (Inr False, start list_schema_files)
   \<and> main example_ext example_args (start list_schema_files)
       = (Exit 0,
          (start list_schema_files)
            \<lparr>stdout :=
               u ''Couldn't open packs file correctly, skipping card validation...\<newline>''
               @ u ''Found 0 formatting and 0 validation errors\<newline>''\<rparr>)"
proof -
  have c: "check_schema example_ext (JList [])
           = Inl (SchemaError (u ''the schema is not of type object''))"
    by (simp add: example_ext_def example_check_schema_def)
  have l: "load_json_file example_ext example_args (u ''/repo/schema/pack_schema.json'')
         (start list_schema_files) = (Inr (JList []), start list_schema_files)"
    by (simp add: load_empty_list list_schema_lookup)
  have v: "validate_packs example_ext example_args (JList [example_pack]) (JList [example_cycle])
         (start list_schema_files) = (Inr False, start list_schema_files)"
    by (simp add: validate_packs_def example_paths l)
  have p: "load_pack_index example_ext example_args (JList [example_cycle]) (start list_schema_files)
       = (Inr JNull, start list_schema_files)"
    by (simp add: load_pack_index_def example_paths load_texts list_schema_lookup v)
  have "main_stages example_ext example_args (start list_schema_files)
        = (Inr (), shown example_args
             (u ''Couldn't open packs file correctly, skipping card validation...\<newline>'') 0
             (start list_schema_files))"
    by (simp add: main_stages_def start_reset example_load_cycles list_schema_lookup p)
  then have "main example_ext example_args (start list_schema_files)
       = (Exit 0,
          (start list_schema_files)
            \<lparr>stdout :=
               u ''Couldn't open packs file correctly, skipping card validation...\<newline>''
               @ u ''Found 0 formatting and 0 validation errors\<newline>''\<rparr>)"
    by (simp add: main_def start_def summary_0_0)
  with c l v show ?thesis by simp
qed

text \<open>
  C7, amended. When the pack index is a list and the pack schema parses to a true
  value that is not a Draft 4 schema, \<open>validate_packs\<close> records exactly one validation
  defect, for the schema, after writing that the schema file is not valid; it validates
  no pack and returns \<open>False\<close>, so that \<open>load_pack_index\<close> returns \<open>None\<close>. This is
  the last case of the three below. The other two are a line that standard output
  cannot encode: when it is the diagnostic, with the path of the schema,
  \<open>UnicodeEncodeError\<close> leaves \<open>validate_packs\<close> before the defect is counted, and when
  it is the text of the \<open>SchemaError\<close>, after.
\<close>

theorem invalid_pack_schema:
  assumes "load_json_file X args (path_join (schema_path args) (u ''pack_schema.json''))
             (shown args (u ''Validating pack index file...\<newline>'') 1 s)
           = (Inr PACK_SCHEMA, s1)"
    and "isinstance_list packs_data" and "truthy PACK_SCHEMA"
    and "check_schema X PACK_SCHEMA = Inl (SchemaError e)"
  shows "validate_packs X args packs_data cycles_data s
         = (if 0 \<le> verbose args
               \<and> \<not> encodable (path_join (schema_path args) (u ''pack_schema.json''))
            then (Inl UnicodeEncodeError, s1)
            else if \<not> encodable e
            then (Inl UnicodeEncodeError,
                  (shown args
                     (path_join (schema_path args) (u ''pack_schema.json'')
                      @ u '': Schema file is not valid Draft 4 JSON schema.\<newline>'') 0 s1)
                    \<lparr>validation_errors := validation_errors s1 + 1\<rparr>)
            else (Inr False,
                  printed e
                    ((shown args
                        (path_join (schema_path args) (u ''pack_schema.json'')
                         @ u '': Schema file is not valid Draft 4 JSON schema.\<newline>'') 0 s1)
                       \<lparr>validation_errors := validation_errors s1 + 1\<rparr>)))
         \<and> validation_errors (snd (validate_packs X args packs_data cycles_data s))
             = validation_errors s1
               + (if 0 \<le> verbose args
                     \<and> \<not> encodable (path_join (schema_path args) (u ''pack_schema.json''))
                  then 0 else 1)
         \<and> (load_json_file X args (path_join (base_path args) (u ''packs.json''))
               (shown args (u ''Loading pack index file...\<newline>'') 1 s0)
             = (Inr packs_data, s)
            \<longrightarrow> fst (load_pack_index X args cycles_data s0)
                = (if (0 \<le> verbose args
                       \<and> \<not> encodable (path_join (schema_path args) (u ''pack_schema.json'')))
                      \<or> \<not> encodable e
                   then Inl UnicodeEncodeError else Inr JNull))"
proof -
  let ?p = "path_join (schema_path args) (u ''pack_schema.json'')"
  let ?d = "?p @ u '': Schema file is not valid Draft 4 JSON schema.\<newline>''"
  have c: "check_json_schema X args PACK_SCHEMA ?p s1
           = (if 0 \<le> verbose args \<and> \<not> encodable ?p then (Inl UnicodeEncodeError, s1)
              else if \<not> encodable e
              then (Inl UnicodeEncodeError,
                    (shown args ?d 0 s1)\<lparr>validation_errors := validation_errors s1 + 1\<rparr>)
              else (Inr False,
                    printed e
                      ((shown args ?d 0 s1)\<lparr>validation_errors := validation_errors s1 + 1\<rparr>)))"
    using assms(4)
    by (simp add: check_json_schema_def verbose_print_result print_result)
  have v: "validate_packs X args packs_data cycles_data s
           = (case check_json_schema X args PACK_SCHEMA ?p s1 of
                (Inl x, s3) \<Rightarrow> (Inl x, s3)
              | (Inr ok, s3) \<Rightarrow>
                  if ok then (case py_iter packs_data of
                                Inl x \<Rightarrow> (Inl x, s3)
                              | Inr ps \<Rightarrow> validate_packs_loop X args PACK_SCHEMA cycles_data ps True s3)
                  else (Inr False, s3))"
    using assms(1-3)
    by (simp add: validate_packs_def split: prod.splits sum.splits bool.splits)
  have 1: "validate_packs X args packs_data cycles_data s
         = (if 0 \<le> verbose args \<and> \<not> encodable ?p then (Inl UnicodeEncodeError, s1)
            else if \<not> encodable e
            then (Inl UnicodeEncodeError,
                  (shown args ?d 0 s1)\<lparr>validation_errors := validation_errors s1 + 1\<rparr>)
            else (Inr False,
                  printed e
                    ((shown args ?d 0 s1)\<lparr>validation_errors := validation_errors s1 + 1\<rparr>)))"
    by (simp add: v c)
  have 2: "validation_errors (snd (validate_packs X args packs_data cycles_data s))
             = validation_errors s1
               + (if 0 \<le> verbose args \<and> \<not> encodable ?p then 0 else 1)"
    by (simp add: 1)
  have 3: "fst (load_pack_index X args cycles_data s0)
                = (if (0 \<le> verbose args \<and> \<not> encodable ?p) \<or> \<not> encodable e
                   then Inl UnicodeEncodeError else Inr JNull)"
    if "load_json_file X args (path_join (base_path args) (u ''packs.json''))
               (shown args (u ''Loading pack index file...\<newline>'') 1 s0)
             = (Inr packs_data, s)"
    using that by (simp add: load_pack_index_def 1)
  from 1 2 3 show ?thesis by simp
qed

theorem invalid_pack_schema_witness:
  "load_json_file example_ext example_args (u ''/repo/schema/pack_schema.json'')
     (start bad_schema_files)
   = (Inr (JDict [(u ''type'', JInt 5)]), start bad_schema_files)
   \<and> check_schema example_ext (JDict [(u ''type'', JInt 5)])
       = Inl (SchemaError (u ''the schema is not valid under the schema of schemas''))
   \<and> validate_packs example_ext example_args (JList [example_pack]) (JList [example_cycle])
         (start bad_schema_files)
       = (Inr False,
          (start bad_schema_files)
            \<lparr>validation_errors := 1,
             stdout :=
               u ''/repo/schema/pack_schema.json: Schema file is not valid Draft 4 JSON schema.\<newline>''
               @ u ''the schema is not valid under the schema of schemas\<newline>''\<rparr>)
   \<and> fst (load_pack_index example_ext example_args (JList [example_cycle])
            (start bad_schema_files))
       = Inr JNull"
proof -
  have l: "load_json_file example_ext example_args
             (path_join (schema_path example_args) (u ''pack_schema.json''))
             (shown example_args (u ''Validating pack index file...\<newline>'') 1
                (start bad_schema_files))
           = (Inr bad_schema, start bad_schema_files)"
    by (simp add: example_paths load_bad_schema bad_schema_lookup)
  have p: "load_json_file example_ext example_args
             (path_join (base_path example_args) (u ''packs.json''))
             (shown example_args (u ''Loading pack index file...\<newline>'') 1
                (start bad_schema_files))
           = (Inr (JList [example_pack]), start bad_schema_files)"
    by (simp add: example_paths load_texts bad_schema_lookup)
  have i: "isinstance_list (JList [example_pack])"
    by simp
  note t = invalid_pack_schema [OF l i bad_schema_check(2) bad_schema_check(1),
      where cycles_data = "JList [example_cycle]" and ?s0.0 = "start bad_schema_files"]
  have a: "validate_packs example_ext example_args (JList [example_pack]) (JList [example_cycle])
         (start bad_schema_files)
       = (Inr False,
          (start bad_schema_files)
            \<lparr>validation_errors := 1,
             stdout :=
               u ''/repo/schema/pack_schema.json: Schema file is not valid Draft 4 JSON schema.\<newline>''
               @ u ''the schema is not valid under the schema of schemas\<newline>''\<rparr>)"
    using t by (simp add: example_paths) (simp add: start_def printed_def u_def)
  have b: "fst (load_pack_index example_ext example_args (JList [example_cycle])
            (start bad_schema_files)) = Inr JNull"
    using t p by (simp add: example_paths)
  from a b l bad_schema_check(1) show ?thesis
    by (simp add: example_paths bad_schema_def)
qed

section \<open>A pack of an unknown cycle\<close>


















section \<open>Packs without cycles\<close>

text \<open>
  When \<open>load_cycles\<close> returns \<open>None\<close>, the cross-check of a pack with a \<open>cycle_code\<close>
  iterates over \<open>None\<close>: it raises \<open>TypeError\<close>, never \<open>ValidationError\<close>, and never
  returns.
\<close>

lemma custom_pack_check_None:
  "custom_pack_check X args pack JNull
   = (case py_getitem pack (u ''cycle_code'') of Inl e \<Rightarrow> Inl e | Inr cc \<Rightarrow> Inl TypeError)"
  by (simp add: custom_pack_check_def split: sum.splits)

text \<open>The repository of the scenario with a cycle index that is not JSON.\<close>

definition no_cycles_files :: "(pystr \<times> file_entry) list" where
  "no_cycles_files =
     [(u ''/repo/cycles.json'', plain_file (u ''[{'')),
      (u ''/repo/packs.json'', plain_file packs_text),
      (u ''/repo/pack/core.json'', plain_file cards_text),
      (u ''/repo/schema/cycle_schema.json'', plain_file schema_text),
      (u ''/repo/schema/pack_schema.json'', plain_file schema_text),
      (u ''/repo/schema/card_schema.json'', plain_file schema_text)]"

lemma no_cycles_lookup:
  "fs (start no_cycles_files) (u ''/repo/cycles.json'') = Some (plain_file (u ''[{''))"
  "fs (start no_cycles_files) (u ''/repo/packs.json'') = Some (plain_file packs_text)"
  "fs (start no_cycles_files) (u ''/repo/schema/cycle_schema.json'') = Some (plain_file schema_text)"
  "fs (start no_cycles_files) (u ''/repo/schema/pack_schema.json'') = Some (plain_file schema_text)"
  by (simp_all add: start_def no_cycles_files_def u_def)

text \<open>
  C4 fails on the code: the run below has lost its cycles and meets a pack that
  conforms to the pack schema; it ends with an uncaught \<open>TypeError\<close>, before the
  summary.
\<close>

theorem absent_cycles_abort_run:
  "fst (load_cycles example_ext example_args (start no_cycles_files)) = Inr JNull
   \<and> validate example_ext example_pack example_schema = Inr ()
   \<and> custom_pack_check example_ext example_args example_pack JNull = Inl TypeError
   \<and> fst (main example_ext example_args (start no_cycles_files)) = Uncaught TypeError"
proof -
  let ?s = "start no_cycles_files"
  let ?s2 = "?s\<lparr>validation_errors := 1,
                  stdout := u ''/repo/cycles.json: File is not valid JSON.\<newline>ValueError\<newline>''
                            @ u ''Insides of cycle index file are not a list!\<newline>''\<rparr>"
  have d: "utf8_decode (u ''[{'') = Some (u ''[{'')"
    by (simp add: utf8_decode_ascii u_def)
  have p: "json_loads_lim example_ext (u ''[{'') = Refused"
    by (simp add: loads_eval)
  have r: "decode_and_load example_ext (content (plain_file (u ''[{''))) = Refused"
    by (simp add: decode_and_load_def plain_file_def d p)
  have t: "value_error_text example_ext bs = u ''ValueError''" for bs
    by (simp add: example_ext_def)
  have l: "load_json_file example_ext example_args (u ''/repo/cycles.json'') ?s
           = (Inr JNull,
              ?s\<lparr>validation_errors := 1,
                  stdout := u ''/repo/cycles.json: File is not valid JSON.\<newline>ValueError\<newline>''\<rparr>)"
    by (simp add: load_json_file_refused [OF no_cycles_lookup(1) _ r] plain_file_def t)
      (simp add: start_def printed_def u_def)
  have f2: "fs ?s2 = fs ?s" "fs (?s\<lparr>validation_errors := 1,
                  stdout := u ''/repo/cycles.json: File is not valid JSON.\<newline>ValueError\<newline>''\<rparr>)
                = fs ?s"
    by simp_all
  have v: "validate_cycles example_ext example_args JNull
             (?s\<lparr>validation_errors := 1,
                  stdout := u ''/repo/cycles.json: File is not valid JSON.\<newline>ValueError\<newline>''\<rparr>)
           = (Inr False, ?s2)"
    by (simp add: validate_cycles_def example_paths load_texts f2 no_cycles_lookup)
  have c: "load_cycles example_ext example_args ?s = (Inr JNull, ?s2)"
    by (simp add: load_cycles_def example_paths l v)
  have k: "custom_pack_check example_ext example_args example_pack JNull = Inl TypeError"
    by (simp add: custom_pack_check_None example_fields)
  have b: "validate_packs example_ext example_args (JList [example_pack]) JNull ?s2
           = (Inl TypeError, ?s2)"
    by (simp add: validate_packs_def example_paths load_texts f2 no_cycles_lookup example_truthy
        check_json_schema_def example_engine validate_packs_body_def validate_packs_try_def
        example_fields k)
  have i: "load_pack_index example_ext example_args JNull ?s2 = (Inl TypeError, ?s2)"
    by (simp add: load_pack_index_def example_paths load_texts f2 no_cycles_lookup b)
  have "main_stages example_ext example_args ?s = (Inl TypeError, ?s2)"
    by (simp add: main_stages_def start_reset c i)
  then have "fst (main example_ext example_args ?s) = Uncaught TypeError"
    by (simp add: main_def)
  with c k show ?thesis
    by (simp add: example_engine)
qed

section \<open>A card of another pack\<close>

text \<open>
  For a card that has a \<open>name\<close>, a \<open>code\<close> and a \<open>pack_code\<close> that differs from the
  code of its pack file, \<open>validate_card\<close> records exactly one validation defect,
  whether the card conforms to the card schema or not, when the schema check raises
  nothing but \<open>ValidationError\<close> and the lines of the handler can be written.
\<close>

lemma pack_code_mismatch_card:
  assumes "py_getitem card' (u ''name'') = Inr name"
    and "py_getitem card' (u ''code'') = Inr code"
    and "py_getitem card' (u ''pack_code'') = Inr pc"
    and "\<not> py_eq X pc pack_code"
    and "validate X card' card_schema = Inr ()
         \<or> (\<exists>e. validate X card' card_schema = Inl (ValidationError e) \<and> encodable e)"
    and "encodable (py_str X name)" and "encodable (py_str X code)"
    and "encodable (py_str X pc)" and "encodable (py_str X pack_code)"
  shows "custom_card_check X args card' pack_code
         = Inl (ValidationError
                  (u ''Pack code '' @ quoted (py_str X pc) @ u '' of the card ''
                   @ quoted (py_str X code) @ u '' doesn't match the pack code ''
                   @ quoted (py_str X pack_code) @ u '' of the file it appears in.''))"
    and "\<exists>s'. validate_card X args card' card_schema pack_code s = (Inr (), s')
              \<and> validation_errors s' = validation_errors s + 1
              \<and> formatting_errors s' = formatting_errors s"
proof -
  show c: "custom_card_check X args card' pack_code
         = Inl (ValidationError
                  (u ''Pack code '' @ quoted (py_str X pc) @ u '' of the card ''
                   @ quoted (py_str X code) @ u '' doesn't match the pack code ''
                   @ quoted (py_str X pack_code) @ u '' of the file it appears in.''))"
    using assms(2-4) by (simp add: custom_card_check_def)
  note g = py_get_of_getitem [OF assms(1)] py_get_of_getitem [OF assms(2)]
  from assms(5)
  show "\<exists>s'. validate_card X args card' card_schema pack_code s = (Inr (), s')
              \<and> validation_errors s' = validation_errors s + 1
              \<and> formatting_errors s' = formatting_errors s"
  proof
    assume "validate X card' card_schema = Inr ()"
    then show ?thesis
      using assms(6-9)
      by (simp add: validate_card_def validate_card_try_def validate_card_except_def
          assms(1) g c)
  next
    assume "\<exists>e. validate X card' card_schema = Inl (ValidationError e) \<and> encodable e"
    then show ?thesis
      using assms(6-9)
      by (auto simp: validate_card_def validate_card_try_def validate_card_except_def
          assms(1) g)
  qed
qed

text \<open>
  The repository of the scenario with a card of another pack that has no \<open>name\<close>.
\<close>

definition nameless_text :: pystr where
  \<open>nameless_text =
     u ''[\<newline>    {\<newline>        "code": "01001",\<newline>        "pack_code": "lost"\<newline>    }\<newline>]\<newline>''\<close>

definition nameless_card :: json where
  "nameless_card = JDict [(u ''code'', JStr (u ''01001'')), (u ''pack_code'', JStr (u ''lost''))]"

definition nameless_files :: "(pystr \<times> file_entry) list" where
  "nameless_files =
     [(u ''/repo/cycles.json'', plain_file cycles_text),
      (u ''/repo/packs.json'', plain_file packs_text),
      (u ''/repo/pack/core.json'', plain_file nameless_text),
      (u ''/repo/schema/cycle_schema.json'', plain_file schema_text),
      (u ''/repo/schema/pack_schema.json'', plain_file schema_text),
      (u ''/repo/schema/card_schema.json'', plain_file schema_text)]"

lemma nameless_lookup:
  "fs (start nameless_files) (u ''/repo/cycles.json'') = Some (plain_file cycles_text)"
  "fs (start nameless_files) (u ''/repo/packs.json'') = Some (plain_file packs_text)"
  "fs (start nameless_files) (u ''/repo/pack/core.json'') = Some (plain_file nameless_text)"
  "fs (start nameless_files) (u ''/repo/schema/cycle_schema.json'') = Some (plain_file schema_text)"
  "fs (start nameless_files) (u ''/repo/schema/pack_schema.json'') = Some (plain_file schema_text)"
  "fs (start nameless_files) (u ''/repo/schema/card_schema.json'') = Some (plain_file schema_text)"
  by (simp_all add: start_def nameless_files_def u_def)

lemma load_nameless:
  assumes "fs s path = Some (plain_file nameless_text)"
  shows "load_json_file example_ext example_args path s = (Inr (JList [nameless_card]), s)"
proof -
  have "utf8_decode nameless_text = Some nameless_text"
    by (simp add: utf8_decode_ascii nameless_text_def u_def)
  moreover have "json_loads_lim example_ext nameless_text = Parsed (JList [nameless_card])"
    by (simp add: nameless_text_def nameless_card_def loads_eval)
  moreover have "format_json (JList [nameless_card]) = nameless_text"
    by (simp add: nameless_text_def nameless_card_def dumps_eval)
  moreover have "nesting (JList [nameless_card]) \<le> encoder_depth example_ext"
    by (simp add: nameless_card_def example_limits)
  ultimately show ?thesis
    using assms by (simp add: load_plain)
qed

text \<open>
  C6 fails on the code: \<open>validate_card\<close> reads \<open>card["name"]\<close> before it validates,
  where \<open>validate_cycles\<close> and \<open>validate_packs\<close> use \<open>get\<close>. The card below belongs to
  another pack and has no name: \<open>KeyError\<close> ends the run, and no defect is recorded.
\<close>

theorem nameless_card_abort_run:
  "py_getitem nameless_card (u ''pack_code'') = Inr (JStr (u ''lost''))
   \<and> \<not> py_eq example_ext (JStr (u ''lost'')) (JStr (u ''core''))
   \<and> validate_card example_ext example_args nameless_card example_schema (JStr (u ''core''))
         (start nameless_files)
       = (Inl KeyError, start nameless_files)
   \<and> main example_ext example_args (start nameless_files)
       = (Uncaught KeyError, start nameless_files)"
proof -
  let ?s = "start nameless_files"
  have a: "py_getitem nameless_card (u ''pack_code'') = Inr (JStr (u ''lost''))"
    and n: "py_getitem nameless_card (u ''name'') = Inl KeyError"
    by (simp_all add: nameless_card_def u_def)
  have e: "\<not> py_eq example_ext (JStr (u ''lost'')) (JStr (u ''core''))"
    by (simp add: u_def)
  have v: "validate_card example_ext example_args nameless_card example_schema c s = (Inl KeyError, s)"
    for c s
    by (simp add: validate_card_def validate_card_try_def n)
  have w: "validate_cards example_ext example_args (JList [example_pack]) ?s = (Inl KeyError, ?s)"
    by (simp add: validate_cards_def example_paths load_texts nameless_lookup example_truthy
        check_json_schema_def example_engine validate_cards_body_def example_fields
        load_nameless v)
  have "main_stages example_ext example_args ?s = (Inl KeyError, ?s)"
    by (simp add: main_stages_def start_reset example_load_cycles example_load_pack_index
        nameless_lookup w)
  then have "main example_ext example_args ?s = (Uncaught KeyError, ?s)"
    by (simp add: main_def)
  with a e v show ?thesis by simp
qed

section \<open>One bad cycle among the cycles\<close>

text \<open>
  The step of the loop of \<open>validate_cycles\<close> for a cycle on which \<open>get\<close> works, an
  object, when what is written about it can be encoded: the step passes when
  \<open>jsonschema.validate\<close> returns, and records one defect when it raises
  \<open>ValidationError\<close>.
\<close>

lemma validate_cycles_body_valid:
  assumes "py_get c (u ''name'') = Inr name" and "encodable (py_str X name)"
    and "validate X c CYCLE_SCHEMA = Inr ()"
  shows "validate_cycles_body X args CYCLE_SCHEMA c s
         = (Inr True,
            shown args (u ''OK\<newline>'') 2
              (shown args (u ''Validating cycle '' @ py_str X name @ u ''... '') 2 s))"
  using assms by (simp add: validate_cycles_body_def validate_cycles_try_def)

lemma validate_cycles_body_invalid:
  assumes "py_get c (u ''name'') = Inr name" and "encodable (py_str X name)"
    and "py_get c (u ''code'') = Inr code" and "encodable (py_str X code)"
    and "validate X c CYCLE_SCHEMA = Inl (ValidationError e)" and "encodable e"
  shows "validate_cycles_body X args CYCLE_SCHEMA c s
         = (Inr False,
            printed e
              ((shown args
                  (u ''Validation error in cycle: (code: '' @ quoted (py_str X code)
                   @ u '' name: '' @ quoted (py_str X name) @ u '')\<newline>'') 0
                  (shown args (u ''ERROR\<newline>'') 2
                     (shown args (u ''Validating cycle '' @ py_str X name @ u ''... '') 2 s)))
                 \<lparr>validation_errors := validation_errors s + 1\<rparr>))"
  using assms
  by (simp add: validate_cycles_body_def validate_cycles_try_def validate_cycles_except_def)

text \<open>
  The repository of the scenario with a number before the cycle in the cycle index.
  The cycle schema asks for an object: the number does not conform, the cycle does.
\<close>

definition mixed_cycles_text :: pystr where
  \<open>mixed_cycles_text =
     u ''[\<newline>    5,\<newline>    {\<newline>        "code": "core",\<newline>        "name": "Core Set"\<newline>    }\<newline>]\<newline>''\<close>

definition mixed_cycles_files :: "(pystr \<times> file_entry) list" where
  "mixed_cycles_files =
     [(u ''/repo/cycles.json'', plain_file mixed_cycles_text),
      (u ''/repo/packs.json'', plain_file packs_text),
      (u ''/repo/pack/core.json'', plain_file cards_text),
      (u ''/repo/schema/cycle_schema.json'', plain_file schema_text),
      (u ''/repo/schema/pack_schema.json'', plain_file schema_text),
      (u ''/repo/schema/card_schema.json'', plain_file schema_text)]"

lemma mixed_cycles_lookup:
  "fs (start mixed_cycles_files) (u ''/repo/cycles.json'') = Some (plain_file mixed_cycles_text)"
  "fs (start mixed_cycles_files) (u ''/repo/schema/cycle_schema.json'') = Some (plain_file schema_text)"
  by (simp_all add: start_def mixed_cycles_files_def u_def)

lemma load_mixed_cycles:
  assumes "fs s path = Some (plain_file mixed_cycles_text)"
  shows "load_json_file example_ext example_args path s = (Inr (JList [JInt 5, example_cycle]), s)"
proof -
  have "utf8_decode mixed_cycles_text = Some mixed_cycles_text"
    by (simp add: utf8_decode_ascii mixed_cycles_text_def u_def)
  moreover have "json_loads_lim example_ext mixed_cycles_text
                 = Parsed (JList [JInt 5, example_cycle])"
    by (simp add: mixed_cycles_text_def example_cycle_def loads_eval)
  moreover have "format_json (JList [JInt 5, example_cycle]) = mixed_cycles_text"
    by (simp add: mixed_cycles_text_def example_cycle_def dumps_eval str_nat.simps)
  moreover have "nesting (JList [JInt 5, example_cycle]) \<le> encoder_depth example_ext"
    by (simp add: nesting_examples example_limits)
  ultimately show ?thesis
    using assms by (simp add: load_plain)
qed

text \<open>
  C8 as stated fails: a cycle that is not an object does not conform to the schema,
  and \<open>c.get\<close> on it raises \<open>AttributeError\<close> before the schema is consulted. The run
  ends there; no defect is recorded and the cycle after it is not validated.
\<close>

theorem one_invalid_cycle_counterexample:
  "check_schema example_ext example_schema = Inr ()
   \<and> validate example_ext (JInt 5) example_schema
       = Inl (ValidationError (u ''the instance is not of the type''))
   \<and> validate example_ext example_cycle example_schema = Inr ()
   \<and> validate_cycles example_ext example_args (JList [JInt 5, example_cycle])
         (start mixed_cycles_files)
       = (Inl AttributeError, start mixed_cycles_files)
   \<and> main example_ext example_args (start mixed_cycles_files)
       = (Uncaught AttributeError, start mixed_cycles_files)"
proof -
  let ?s = "start mixed_cycles_files"
  have i: "validate example_ext (JInt 5) example_schema
           = Inl (ValidationError (u ''the instance is not of the type''))"
    by (simp add: example_ext_def example_validate_def example_check_schema_def example_schema_def
        example_type_ok_def u_def)
  have v: "validate_cycles example_ext example_args (JList [JInt 5, example_cycle]) ?s
           = (Inl AttributeError, ?s)"
    by (simp add: validate_cycles_def example_paths load_texts mixed_cycles_lookup example_truthy
        check_json_schema_def example_engine validate_cycles_body_def validate_cycles_try_def)
  have "load_cycles example_ext example_args ?s = (Inl AttributeError, ?s)"
    by (simp add: load_cycles_def example_paths load_mixed_cycles mixed_cycles_lookup v)
  then have "main_stages example_ext example_args ?s = (Inl AttributeError, ?s)"
    by (simp add: main_stages_def start_reset)
  then have "main example_ext example_args ?s = (Uncaught AttributeError, ?s)"
    by (simp add: main_def)
  with i v show ?thesis
    by (simp add: example_engine)
qed

text \<open>
  C8, amended. Let the cycle schema parse to a true value that passes the Draft 4
  check, and let the cycle list hold two objects, in either order, such that
  \<open>jsonschema.validate\<close> raises \<open>ValidationError\<close> on the one and returns on the other;
  so it raises nothing else, such as \<open>SchemaError\<close> on a schema that the validator
  of its \<open>$schema\<close> refuses. Let the code and the name of the cycles, as \<open>get\<close> gives
  them, and the text of the error be texts that standard output can encode. Then
  \<open>validate_cycles\<close> returns \<open>False\<close> with the validation counter exactly one above
  what the load of the schema left, and the step for the cycle that conforms gives
  \<open>True\<close> and records nothing, also after the step for the other.
\<close>

theorem one_invalid_cycle:
  assumes "load_json_file X args (path_join (schema_path args) (u ''cycle_schema.json''))
             (shown args (u ''Validating cycle index file...\<newline>'') 1 s)
           = (Inr CYCLE_SCHEMA, s1)"
    and "truthy CYCLE_SCHEMA" and "check_schema X CYCLE_SCHEMA = Inr ()"
    and "validate X bad CYCLE_SCHEMA = Inl (ValidationError e)" and "encodable e"
    and "validate X good CYCLE_SCHEMA = Inr ()"
    and "py_get bad (u ''code'') = Inr bad_code" and "encodable (py_str X bad_code)"
    and "py_get bad (u ''name'') = Inr bad_name" and "encodable (py_str X bad_name)"
    and "py_get good (u ''name'') = Inr good_name" and "encodable (py_str X good_name)"
  shows "(\<exists>sm s'. validate_cycles_body X args CYCLE_SCHEMA bad s1 = (Inr False, sm)
            \<and> validation_errors sm = validation_errors s1 + 1
            \<and> validate_cycles_body X args CYCLE_SCHEMA good sm = (Inr True, s')
            \<and> validate_cycles X args (JList [bad, good]) s = (Inr False, s')
            \<and> validation_errors s' = validation_errors s1 + 1
            \<and> formatting_errors s' = formatting_errors s1
            \<and> stdout s'
                = stdout s1
                  @ (if 2 \<le> verbose args
                     then u ''Validating cycle '' @ py_str X bad_name @ u ''... '' @ u ''ERROR\<newline>''
                     else [])
                  @ (if 0 \<le> verbose args
                     then u ''Validation error in cycle: (code: '' @ quoted (py_str X bad_code)
                          @ u '' name: '' @ quoted (py_str X bad_name) @ u '')\<newline>''
                     else [])
                  @ e @ [10]
                  @ (if 2 \<le> verbose args
                     then u ''Validating cycle '' @ py_str X good_name @ u ''... '' @ u ''OK\<newline>''
                     else []))
       \<and> (\<exists>sm s'. validate_cycles_body X args CYCLE_SCHEMA good s1 = (Inr True, sm)
            \<and> validation_errors sm = validation_errors s1
            \<and> validate_cycles_body X args CYCLE_SCHEMA bad sm = (Inr False, s')
            \<and> validate_cycles X args (JList [good, bad]) s = (Inr False, s')
            \<and> validation_errors s' = validation_errors s1 + 1
            \<and> formatting_errors s' = formatting_errors s1
            \<and> stdout s'
                = stdout s1
                  @ (if 2 \<le> verbose args
                     then u ''Validating cycle '' @ py_str X good_name @ u ''... '' @ u ''OK\<newline>''
                          @ u ''Validating cycle '' @ py_str X bad_name @ u ''... '' @ u ''ERROR\<newline>''
                     else [])
                  @ (if 0 \<le> verbose args
                     then u ''Validation error in cycle: (code: '' @ quoted (py_str X bad_code)
                          @ u '' name: '' @ quoted (py_str X bad_name) @ u '')\<newline>''
                     else [])
                  @ e @ [10])"
proof (rule conjI)
  have pre: "validate_cycles X args (JList cs) s = validate_cycles_loop X args CYCLE_SCHEMA cs True s1"
    for cs
    using assms(1-3) by (simp add: validate_cycles_def check_json_schema_def)
  note b = validate_cycles_body_invalid [OF assms(9,10,7,8,4,5), of args]
  note g = validate_cycles_body_valid [OF assms(11,12,6), of args]
  show "\<exists>sm s'. validate_cycles_body X args CYCLE_SCHEMA bad s1 = (Inr False, sm)
            \<and> validation_errors sm = validation_errors s1 + 1
            \<and> validate_cycles_body X args CYCLE_SCHEMA good sm = (Inr True, s')
            \<and> validate_cycles X args (JList [bad, good]) s = (Inr False, s')
            \<and> validation_errors s' = validation_errors s1 + 1
            \<and> formatting_errors s' = formatting_errors s1
            \<and> stdout s'
                = stdout s1
                  @ (if 2 \<le> verbose args
                     then u ''Validating cycle '' @ py_str X bad_name @ u ''... '' @ u ''ERROR\<newline>''
                     else [])
                  @ (if 0 \<le> verbose args
                     then u ''Validation error in cycle: (code: '' @ quoted (py_str X bad_code)
                          @ u '' name: '' @ quoted (py_str X bad_name) @ u '')\<newline>''
                     else [])
                  @ e @ [10]
                  @ (if 2 \<le> verbose args
                     then u ''Validating cycle '' @ py_str X good_name @ u ''... '' @ u ''OK\<newline>''
                     else [])"
    by (simp add: pre b g) (simp add: shown_def printed_def)
  show "\<exists>sm s'. validate_cycles_body X args CYCLE_SCHEMA good s1 = (Inr True, sm)
            \<and> validation_errors sm = validation_errors s1
            \<and> validate_cycles_body X args CYCLE_SCHEMA bad sm = (Inr False, s')
            \<and> validate_cycles X args (JList [good, bad]) s = (Inr False, s')
            \<and> validation_errors s' = validation_errors s1 + 1
            \<and> formatting_errors s' = formatting_errors s1
            \<and> stdout s'
                = stdout s1
                  @ (if 2 \<le> verbose args
                     then u ''Validating cycle '' @ py_str X good_name @ u ''... '' @ u ''OK\<newline>''
                          @ u ''Validating cycle '' @ py_str X bad_name @ u ''... '' @ u ''ERROR\<newline>''
                     else [])
                  @ (if 0 \<le> verbose args
                     then u ''Validation error in cycle: (code: '' @ quoted (py_str X bad_code)
                          @ u '' name: '' @ quoted (py_str X bad_name) @ u '')\<newline>''
                     else [])
                  @ e @ [10]"
    by (simp add: pre b g) (simp add: shown_def printed_def)
qed

text \<open>
  A cycle schema that asks for an object with a code and a name, and a cycle without
  a name.
\<close>

definition strict_schema_text :: pystr where
  \<open>strict_schema_text =
     u ''{\<newline>    "required": [\<newline>        "code",\<newline>        "name"\<newline>    ],\<newline>    "type": "object"\<newline>}\<newline>''\<close>

definition strict_schema :: json where
  "strict_schema =
     JDict [(u ''required'', JList [JStr (u ''code''), JStr (u ''name'')]),
            (u ''type'', JStr (u ''object''))]"

definition strict_files :: "(pystr \<times> file_entry) list" where
  "strict_files = [(u ''/repo/schema/cycle_schema.json'', plain_file strict_schema_text)]"

definition lost_cycle :: json where
  "lost_cycle = JDict [(u ''code'', JStr (u ''lost''))]"

lemma load_strict_schema:
  assumes "fs s path = Some (plain_file strict_schema_text)"
  shows "load_json_file example_ext example_args path s = (Inr strict_schema, s)"
proof -
  have "utf8_decode strict_schema_text = Some strict_schema_text"
    by (simp add: utf8_decode_ascii strict_schema_text_def u_def)
  moreover have "json_loads_lim example_ext strict_schema_text = Parsed strict_schema"
    by (simp add: strict_schema_text_def strict_schema_def loads_eval)
  moreover have "format_json strict_schema = strict_schema_text"
    by (simp add: strict_schema_text_def strict_schema_def dumps_eval)
  moreover have "nesting strict_schema \<le> encoder_depth example_ext"
    by (simp add: strict_schema_def example_limits)
  ultimately show ?thesis
    using assms by (simp add: load_plain)
qed

theorem one_invalid_cycle_witness:
  "check_schema example_ext strict_schema = Inr ()
   \<and> validate example_ext lost_cycle strict_schema
       = Inl (ValidationError (u ''a required property is missing''))
   \<and> validate example_ext example_cycle strict_schema = Inr ()
   \<and> validate_cycles example_ext example_args (JList [lost_cycle, example_cycle])
         (start strict_files)
       = (Inr False,
          (start strict_files)
            \<lparr>validation_errors := 1,
             stdout := u ''Validation error in cycle: (code: 'lost' name: 'None')\<newline>''
                       @ u ''a required property is missing\<newline>''\<rparr>)
   \<and> validate_cycles example_ext example_args (JList [example_cycle, lost_cycle])
         (start strict_files)
       = (Inr False,
          (start strict_files)
            \<lparr>validation_errors := 1,
             stdout := u ''Validation error in cycle: (code: 'lost' name: 'None')\<newline>''
                       @ u ''a required property is missing\<newline>''\<rparr>)"
proof -
  let ?s = "start strict_files"
  have f: "fs ?s (u ''/repo/schema/cycle_schema.json'') = Some (plain_file strict_schema_text)"
    by (simp add: start_def strict_files_def)
  have l: "load_json_file example_ext example_args
             (path_join (schema_path example_args) (u ''cycle_schema.json''))
             (shown example_args (u ''Validating cycle index file...\<newline>'') 1 ?s)
           = (Inr strict_schema, ?s)"
    by (simp add: example_paths load_strict_schema f)
  have t: "truthy strict_schema"
    by (simp add: strict_schema_def)
  have c: "check_schema example_ext strict_schema = Inr ()"
    by (simp add: example_ext_def example_check_schema_def strict_schema_def u_def)
  have b: "validate example_ext lost_cycle strict_schema
           = Inl (ValidationError (u ''a required property is missing''))"
    by (simp add: example_ext_def example_validate_def example_check_schema_def strict_schema_def
        lost_cycle_def example_type_ok_def u_def)
  have g: "validate example_ext example_cycle strict_schema = Inr ()"
    by (simp add: example_ext_def example_validate_def example_check_schema_def strict_schema_def
        example_cycle_def example_type_ok_def u_def)
  have k: "py_get lost_cycle (u ''code'') = Inr (JStr (u ''lost''))"
    "py_get lost_cycle (u ''name'') = Inr JNull"
    by (simp_all add: lost_cycle_def u_def)
  have r: "py_repr example_ext JNull = u ''None''"
    by (simp add: example_ext_def)
  have e: "encodable (u ''a required property is missing'')"
    "encodable (py_str example_ext (JStr (u ''lost'')))"
    "encodable (py_str example_ext JNull)"
    "encodable (py_str example_ext (JStr (u ''Core Set'')))"
    by (simp_all add: r)
  have v: "verbose example_args = 0" "validation_errors ?s = 0" "formatting_errors ?s = 0"
    "stdout ?s = []"
    by (simp_all add: example_args_def start_def)
  note w = one_invalid_cycle [OF l t c b e(1) g k(1) e(2) k(2) e(3) example_fields(1) e(4)]
  from w obtain sm s' where
    a1: "validate_cycles example_ext example_args (JList [lost_cycle, example_cycle]) ?s
         = (Inr False, s')"
    and a2: "validation_errors s' = 1" "formatting_errors s' = 0"
      "stdout s' = u ''Validation error in cycle: (code: 'lost' name: 'None')\<newline>''
                       @ u ''a required property is missing\<newline>''"
    and a3: "validate_cycles_body example_ext example_args strict_schema lost_cycle ?s
             = (Inr False, sm)"
      "validate_cycles_body example_ext example_args strict_schema example_cycle sm = (Inr True, s')"
    by (auto simp: v r quoted_def u_def)
  from w obtain tm t' where
    b1: "validate_cycles example_ext example_args (JList [example_cycle, lost_cycle]) ?s
         = (Inr False, t')"
    and b2: "validation_errors t' = 1" "formatting_errors t' = 0"
      "stdout t' = u ''Validation error in cycle: (code: 'lost' name: 'None')\<newline>''
                       @ u ''a required property is missing\<newline>''"
    and b3: "validate_cycles_body example_ext example_args strict_schema example_cycle ?s
             = (Inr True, tm)"
      "validate_cycles_body example_ext example_args strict_schema lost_cycle tm = (Inr False, t')"
    by (auto simp: v r quoted_def u_def)
  have fs1: "fs s' = fs ?s"
    using a3 k e example_fields(1) b g
    by (simp add: validate_cycles_body_invalid [where name = JNull and code = "JStr (u ''lost'')"
          and e = "u ''a required property is missing''"]
        validate_cycles_body_valid [where name = "JStr (u ''Core Set'')"])
      auto
  have fs2: "fs t' = fs ?s"
    using b3 k e example_fields(1) b g
    by (simp add: validate_cycles_body_invalid [where name = JNull and code = "JStr (u ''lost'')"
          and e = "u ''a required property is missing''"]
        validate_cycles_body_valid [where name = "JStr (u ''Core Set'')"])
      auto
  have "s' = ?s\<lparr>validation_errors := 1,
             stdout := u ''Validation error in cycle: (code: 'lost' name: 'None')\<newline>''
                       @ u ''a required property is missing\<newline>''\<rparr>"
    using a2 fs1 by (cases s') (simp add: start_def)
  moreover have "t' = ?s\<lparr>validation_errors := 1,
             stdout := u ''Validation error in cycle: (code: 'lost' name: 'None')\<newline>''
                       @ u ''a required property is missing\<newline>''\<rparr>"
    using b2 fs2 by (cases t') (simp add: start_def)
  ultimately show ?thesis
    using a1 b1 c b g by simp
qed

section \<open>Loading a file that parses\<close>

text \<open>
  For a file that parses, \<open>load_json_file\<close> returns the document unless the file is to
  be rewritten and the canonical text cannot be encoded; a file in canonical form
  leaves both counters and the files as they are.
\<close>

lemma load_json_file_parsed:
  assumes "fs s path = Some f" and "readable f"
    and "decode_and_load X (content f) = Parsed (raw_data, json_data)"
    and "nesting json_data \<le> encoder_depth X"
    and "encodable path" and "encodable (io_error_text X path)"
  shows "\<not> (format_json json_data \<noteq> raw_data \<and> fix_formatting args \<and> writable f
            \<and> utf8_encode (format_json json_data) = None)
         \<Longrightarrow> fst (load_json_file X args path s) = Inr json_data"
    and "format_json json_data = raw_data
         \<Longrightarrow> load_json_file X args path s
             = (Inr json_data,
                shown args (path @ u '': Checking JSON formatting...\<newline>'') 1 s)"
    and "format_json json_data \<noteq> raw_data
         \<Longrightarrow> formatting_errors (snd (load_json_file X args path s)) = formatting_errors s + 1"
  using assms
  by (auto simp: load_json_file_def fix_file_def Let_def write_file_def format_json_def
      split: option.splits)

lemma load_json_file_unencodable:
  assumes "fs s path = Some f" and "readable f" and "writable f"
    and "decode_and_load X (content f) = Parsed (raw_data, json_data)"
    and "nesting json_data \<le> encoder_depth X" and "encodable path"
    and "format_json json_data \<noteq> raw_data" and "fix_formatting args"
    and "utf8_encode (format_json json_data) = None"
  shows "fst (load_json_file X args path s) = Inl UnicodeEncodeError"
    and "fs (snd (load_json_file X args path s)) path = Some (f\<lparr>content := []\<rparr>)"
    and "formatting_errors (snd (load_json_file X args path s)) = formatting_errors s + 1"
  using assms
  by (auto simp: load_json_file_def fix_file_def Let_def write_file_def format_json_def)

text \<open>
  A file that holds the JSON string with the escape of a lone surrogate, and the
  arguments of the scenario with \<open>--fix_formatting\<close>.
\<close>

definition surrogate_bytes :: bytes where
  \<open>surrogate_bytes = u ''"'' @ [0x5C] @ u ''ud800"''\<close>

definition surrogate_files :: "(pystr \<times> file_entry) list" where
  "surrogate_files = [(u ''/repo/cycles.json'', plain_file surrogate_bytes)]"

definition fix_args :: args where
  "fix_args = example_args\<lparr>fix_formatting := True\<rparr>"

text \<open>
  C9 fails on the code: the file below parses, to a string of one surrogate; its
  canonical text differs from the file, so the file is opened for writing, which
  empties it, and the text cannot be encoded. \<open>UnicodeEncodeError\<close> is not an
  \<open>IOError\<close>: it leaves \<open>load_json_file\<close>, which returns nothing.
\<close>

theorem surrogate_file_abort:
  "utf8_decode surrogate_bytes = Some surrogate_bytes
   \<and> json_loads example_ext surrogate_bytes = Some (JStr [0xD800])
   \<and> json_loads_lim example_ext surrogate_bytes = Parsed (JStr [0xD800])
   \<and> format_json (JStr [0xD800]) = [0x22, 0xD800, 0x22, 0x0A]
   \<and> utf8_encode (format_json (JStr [0xD800])) = None
   \<and> fst (load_json_file example_ext fix_args (u ''/repo/cycles.json'') (start surrogate_files))
       = Inl UnicodeEncodeError
   \<and> fs (snd (load_json_file example_ext fix_args (u ''/repo/cycles.json'')
                (start surrogate_files))) (u ''/repo/cycles.json'')
       = Some (plain_file [])"
proof -
  have d: "utf8_decode surrogate_bytes = Some surrogate_bytes"
    by (simp add: utf8_decode_ascii surrogate_bytes_def u_def)
  have l: "json_loads_lim example_ext surrogate_bytes = Parsed (JStr [0xD800])"
    by (simp add: surrogate_bytes_def loads_eval)
  have f: "format_json (JStr [0xD800]) = [0x22, 0xD800, 0x22, 0x0A]"
    by (simp add: dumps_eval)
  have e: "utf8_encode (format_json (JStr [0xD800])) = None"
    by (simp add: f utf8_encode_char_def)
  have n: "format_json (JStr [0xD800]) \<noteq> surrogate_bytes"
    by (simp add: f surrogate_bytes_def u_def)
  have m: "fs (start surrogate_files) (u ''/repo/cycles.json'') = Some (plain_file surrogate_bytes)"
    by (simp add: start_def surrogate_files_def)
  have r: "readable (plain_file surrogate_bytes)" "writable (plain_file surrogate_bytes)"
    "content (plain_file surrogate_bytes) = surrogate_bytes"
    "(plain_file surrogate_bytes)\<lparr>content := []\<rparr> = plain_file []"
    by (simp_all add: plain_file_def)
  have x: "fix_formatting fix_args"
    by (simp add: fix_args_def)
  have p: "decode_and_load example_ext (content (plain_file surrogate_bytes))
           = Parsed (surrogate_bytes, JStr [0xD800])"
    by (simp add: r decode_and_load_Parsed [OF d l])
  have z: "nesting (JStr [0xD800]) \<le> encoder_depth example_ext"
    by simp
  have "fst (load_json_file example_ext fix_args (u ''/repo/cycles.json'') (start surrogate_files))
       = Inl UnicodeEncodeError"
    and "fs (snd (load_json_file example_ext fix_args (u ''/repo/cycles.json'')
                (start surrogate_files))) (u ''/repo/cycles.json'')
       = Some (plain_file [])"
    using load_json_file_unencodable [OF m r(1,2) p z _ n x e]
    by (simp_all add: r)
  with d l f e json_loads_lim_Parsed [OF l] show ?thesis by simp
qed

section \<open>The canonical form read back\<close>

subsection \<open>What follows a value\<close>

definition delim :: "pystr \<Rightarrow> bool" where
  "delim r = (case r of [] \<Rightarrow> True | c # _ \<Rightarrow> c = 0x2C \<or> c = 0x0A)"

lemma digits_append:
  assumes "delim r"
  shows "takeWhile is_digit (t @ r) = takeWhile is_digit t"
    and "dropWhile is_digit (t @ r) = dropWhile is_digit t @ r"
proof -
  have "takeWhile is_digit r = []" "dropWhile is_digit r = r"
    using assms by (auto simp: delim_def is_digit_def split: list.splits)
  then show "takeWhile is_digit (t @ r) = takeWhile is_digit t"
    and "dropWhile is_digit (t @ r) = dropWhile is_digit t @ r"
    by (induction t) auto
qed

lemma delim_cases:
  assumes "delim r"
  obtains "r = []" | t where "r = 0x2C # t" | t where "r = 0x0A # t"
  using assms by (auto simp: delim_def split: list.splits)

lemma digits_delim:
  assumes "delim r"
  shows "takeWhile is_digit r = []" and "dropWhile is_digit r = r"
  using digits_append [OF assms, of "[]"] by simp_all

lemma match_integer_append:
  assumes "match_integer s = Some (integer, rest)" and "delim r"
  shows "match_integer (s @ r) = Some (integer, rest @ r)"
proof (cases s)
  case Nil
  with assms(1) show ?thesis by (simp add: match_integer_def)
next
  case (Cons c t)
  show ?thesis
  proof (cases t)
    case Nil
    with Cons assms show ?thesis
      by (auto simp: match_integer_def digits_delim split: if_splits)
  next
    case (Cons d t')
    with \<open>s = c # t\<close> assms show ?thesis
      by (auto simp: match_integer_def digits_append split: if_splits)
  qed
qed

lemma match_frac_delim: "delim r \<Longrightarrow> match_frac r = ([], r)"
  by (erule delim_cases) (auto simp: match_frac_def split: list.splits)

lemma match_exp_delim: "delim r \<Longrightarrow> match_exp r = ([], r)"
  by (erule delim_cases) (auto simp: match_exp_def)

lemma not_digit_delim: "delim (d # t) \<Longrightarrow> \<not> is_digit d"
  by (auto simp: delim_def is_digit_def)

lemma match_frac_append:
  assumes "match_frac s = (frac, rest)" and "delim r"
  shows "match_frac (s @ r) = (frac, rest @ r)"
proof (cases s)
  case Nil
  with assms show ?thesis by (simp add: match_frac_delim) (simp add: match_frac_def)
next
  case (Cons c t)
  show ?thesis
  proof (cases t)
    case Nil
    show ?thesis
    proof (cases r)
      case Nil
      with assms show ?thesis by simp
    next
      case (Cons d r')
      with assms(2) have "\<not> is_digit d"
        by (simp add: not_digit_delim)
      then have "match_frac ([c] @ d # r') = ([], [c] @ d # r')"
        by (simp add: match_frac_def)
      moreover from assms(1) \<open>s = c # t\<close> \<open>t = []\<close> have "frac = []" "rest = [c]"
        by (simp_all add: match_frac_def)
      ultimately show ?thesis
        using \<open>s = c # t\<close> \<open>t = []\<close> Cons by simp
    qed
  next
    case (Cons d t')
    with \<open>s = c # t\<close> assms show ?thesis
      by (auto simp: match_frac_def digits_append split: if_splits)
  qed
qed

lemma match_exp_append:
  assumes "match_exp s = (exp, rest)" and "delim r"
  shows "match_exp (s @ r) = (exp, rest @ r)"
proof (cases s)
  case Nil
  with assms show ?thesis by (simp add: match_exp_delim) (simp add: match_exp_def)
next
  case s: (Cons c t)
  show ?thesis
  proof (cases "c = 101 \<or> c = 69")
    case False
    with s assms show ?thesis by (auto simp: match_exp_def)
  next
    case e: True
    show ?thesis
    proof (cases t)
      case Nil
      from assms(2) show ?thesis
      proof (cases rule: delim_cases)
        case 1
        with assms show ?thesis by simp
      next
        case (2 r')
        with assms s e Nil show ?thesis by (auto simp: match_exp_def is_digit_def)
      next
        case (3 r')
        with assms s e Nil show ?thesis by (auto simp: match_exp_def is_digit_def)
      qed
    next
      case t: (Cons g t')
      show ?thesis
      proof (cases t')
        case Nil
        from assms(2) show ?thesis
        proof (cases rule: delim_cases)
          case 1
          with assms show ?thesis by simp
        next
          case (2 r')
          with assms s e t Nil show ?thesis
            by (auto simp: match_exp_def is_digit_def split: if_splits)
        next
          case (3 r')
          with assms s e t Nil show ?thesis
            by (auto simp: match_exp_def is_digit_def split: if_splits)
        qed
      next
        case (Cons d t2)
        with assms s e t show ?thesis
          by (auto simp: match_exp_def digits_append split: if_splits)
      qed
    qed
  qed
qed

lemma match_number_append:
  assumes "match_number s = Some (integer, frac, exp, rest)" and "delim r"
  shows "match_number (s @ r) = Some (integer, frac, exp, rest @ r)"
proof -
  from assms(1) obtain r1 r2 where
    i: "match_integer s = Some (integer, r1)" and f: "match_frac r1 = (frac, r2)"
    and e: "match_exp r2 = (exp, rest)"
    by (auto simp: match_number_def split: option.splits prod.splits)
  show ?thesis
    by (simp add: match_number_def match_integer_append [OF i assms(2)]
        match_frac_append [OF f assms(2)] match_exp_append [OF e assms(2)])
qed

subsection \<open>Integers\<close>

lemma str_nat_digits: "list_all is_digit (str_nat n)"
proof (induction n rule: str_nat.induct)
  case (1 n)
  show ?case
  proof (cases "n < 10")
    case True
    then show ?thesis
      by (subst str_nat.simps) (simp add: is_digit_def)
  next
    case False
    with "1.IH" have "list_all is_digit (str_nat (n div 10))"
      by simp
    moreover have "n mod 10 \<le> 9"
      by simp
    ultimately show ?thesis
      using False by (subst str_nat.simps) (simp add: is_digit_def)
  qed
qed

lemma str_nat_pos:
  "0 < n \<Longrightarrow> \<exists>d ds. str_nat n = d # ds \<and> 49 \<le> d \<and> d \<le> 57 \<and> list_all is_digit ds"
proof (induction n rule: str_nat.induct)
  case (1 n)
  show ?case
  proof (cases "n < 10")
    case True
    with "1.prems" show ?thesis
      by (subst str_nat.simps) simp
  next
    case False
    then have "0 < n div 10" by simp
    with "1.IH" False obtain d ds where
      "str_nat (n div 10) = d # ds" "49 \<le> d" "d \<le> 57" "list_all is_digit ds"
      by auto
    with False show ?thesis
      by (subst str_nat.simps) (simp add: is_digit_def)
  qed
qed

lemma int_of_digits_snoc:
  "int_of_digits (ds @ [d]) = int_of_digits ds * 10 + int (d - 48)"
  by (simp add: int_of_digits_def)

lemma int_of_digits_str_nat: "int_of_digits (str_nat n) = int n"
proof (induction n rule: str_nat.induct)
  case (1 n)
  show ?case
  proof (cases "n < 10")
    case True
    then show ?thesis
      by (subst str_nat.simps) (simp add: int_of_digits_def)
  next
    case False
    with "1.IH" have "int_of_digits (str_nat (n div 10)) = int (n div 10)"
      by simp
    with False show ?thesis
      by (subst str_nat.simps) (simp add: int_of_digits_snoc zdiv_int zmod_int)
  qed
qed

lemma digits_then_delim:
  assumes "list_all is_digit ds" and "delim r"
  shows "takeWhile is_digit (ds @ r) = ds" and "dropWhile is_digit (ds @ r) = r"
  using assms by (simp_all add: digits_append digits_delim list_all_iff)

lemma str_nat_0: "str_nat 0 = [48]"
  by (subst str_nat.simps) simp

lemma match_integer_str_int:
  assumes "delim r"
  shows "match_integer (str_int i @ r) = Some (str_int i, r)"
proof -
  have pos: "match_integer (str_nat n @ r) = Some (str_nat n, r)" if "0 < n" for n
  proof -
    from str_nat_pos [OF that] obtain d ds where
      "str_nat n = d # ds" "49 \<le> d" "d \<le> 57" "list_all is_digit ds"
      by blast
    then show ?thesis
      by (simp add: match_integer_def digits_then_delim [OF _ assms])
  qed
  have neg: "match_integer (45 # str_nat n @ r) = Some (45 # str_nat n, r)" if "0 < n" for n
  proof -
    from str_nat_pos [OF that] obtain d ds where
      "str_nat n = d # ds" "49 \<le> d" "d \<le> 57" "list_all is_digit ds"
      by blast
    then show ?thesis
      by (simp add: match_integer_def digits_then_delim [OF _ assms])
  qed
  consider "i = 0" | "0 < i" | "i < 0" by linarith
  then show ?thesis
  proof cases
    case 1
    then show ?thesis by (simp add: str_int_def str_nat_0 match_integer_def)
  next
    case 2
    then show ?thesis by (simp add: str_int_def pos)
  next
    case 3
    then show ?thesis by (simp add: str_int_def neg)
  qed
qed

lemma match_number_str_int:
  assumes "delim r"
  shows "match_number (str_int i @ r) = Some (str_int i, [], [], r)"
  by (simp add: match_number_def match_integer_str_int [OF assms] match_frac_delim [OF assms]
      match_exp_delim [OF assms])

lemma str_nat_first: "\<exists>c t. str_nat n = c # t \<and> is_digit c"
proof (cases "n = 0")
  case True
  then show ?thesis by (simp add: str_nat_0 is_digit_def)
next
  case False
  then have "0 < n" by simp
  from str_nat_pos [OF this] show ?thesis
    by (auto simp: is_digit_def)
qed

lemma py_int_str_int: "py_int (str_int i) = i"
proof (cases "i < 0")
  case True
  then show ?thesis
    by (simp add: str_int_def py_int_def int_of_digits_str_nat)
next
  case False
  obtain c t where ct: "str_nat (nat i) = c # t" "is_digit c"
    using str_nat_first by blast
  then have "c \<noteq> 45" by (auto simp: is_digit_def)
  with False ct int_of_digits_str_nat [of "nat i"] show ?thesis
    by (simp add: str_int_def py_int_def)
qed

subsection \<open>Strings\<close>

lemma hexval_hexdigit: "d < 16 \<Longrightarrow> hexval (hexdigit d) = Some d"
  by (auto simp: hexval_def hexdigit_def)

lemma scanstring_escape_char:
  "scanstring (escape_char c @ s) = cons_chr c (scanstring s)"
proof -
  consider "c = 0x5C" | "c = 0x22" | "c = 0x08" | "c = 0x0C" | "c = 0x0A" | "c = 0x0D" | "c = 0x09"
    | "c < 0x20" "c \<noteq> 0x08" "c \<noteq> 0x0C" "c \<noteq> 0x0A" "c \<noteq> 0x0D" "c \<noteq> 0x09"
    | "\<not> c < 0x20" "c \<noteq> 0x5C" "c \<noteq> 0x22"
    by fastforce
  then show ?thesis
  proof cases
    case 8
    then have h: "c div 16 < 16" "c mod 16 < 16" "c div 16 * 16 + c mod 16 = c"
      by simp_all
    have z: "hexval 48 = Some 0" by (simp add: hexval_def)
    from 8 have e: "escape_char c = [0x5C, 0x75, 48, 48, hexdigit (c div 16), hexdigit (c mod 16)]"
      by (simp add: escape_char_def)
    have "decode_uXXXX (48 # 48 # hexdigit (c div 16) # hexdigit (c mod 16) # s) = Some (c, s)"
      using h by (simp add: z hexval_hexdigit)
    with 8 show ?thesis
      by (simp add: e)
  qed (simp_all add: escape_char_def backslash_def)
qed

lemma scanstring_escaped:
  "scanstring (concat (map escape_char s) @ 0x22 # r) = Some (s, r)"
  by (induction s) (simp_all add: scanstring_escape_char cons_chr_def)

subsection \<open>The values and their normal form\<close>

text \<open>
  A \<open>JFloat\<close> stands for a Python float when its text is one of the three constants
  or a number literal with a fraction or an exponent that denotes that very float
  (\<open>repr\<close> gives back the text). A \<open>JDict\<close> stands for a dict when no key comes twice.
\<close>

definition is_float_text :: "ext \<Rightarrow> pystr \<Rightarrow> bool" where
  "is_float_text X r =
     (r = u ''NaN'' \<or> r = u ''Infinity'' \<or> r = u ''-Infinity''
      \<or> (case match_number r of
            None \<Rightarrow> False
          | Some (integer, frac, exp, rest) \<Rightarrow>
              rest = [] \<and> (frac \<noteq> [] \<or> exp \<noteq> []) \<and> float_text X (integer @ frac @ exp) = r))"

fun python_value :: "ext \<Rightarrow> json \<Rightarrow> bool" where
  "python_value X (JFloat r) = is_float_text X r"
| "python_value X (JList xs) = list_all (python_value X) xs"
| "python_value X (JDict kvs) =
     (distinct (map fst kvs) \<and> list_all (python_value X) (map snd kvs))"
| "python_value X v = True"

text \<open>The value with the items of every dict in the order of their keys.\<close>

fun sort_keys :: "json \<Rightarrow> json" where
  "sort_keys (JList xs) = JList (map sort_keys xs)"
| "sort_keys (JDict kvs) = JDict (sort_key fst (map (\<lambda>(k, v). (k, sort_keys v)) kvs))"
| "sort_keys v = v"

subsection \<open>The first character of a value\<close>

definition value_char :: "nat \<Rightarrow> bool" where
  "value_char c =
     (c = 45 \<or> is_digit c \<or> c = 0x22 \<or> c = 0x5B \<or> c = 0x7B \<or> c = 0x6E \<or> c = 0x74
      \<or> c = 0x66 \<or> c = 0x4E \<or> c = 0x49)"

lemma match_integer_first:
  "match_integer s = Some x \<Longrightarrow> \<exists>c t. s = c # t \<and> (c = 45 \<or> is_digit c)"
  by (cases s) (auto simp: match_integer_def is_digit_def split: if_splits list.splits)

lemma float_text_first:
  assumes "is_float_text X r"
  shows "\<exists>c t. r = c # t \<and> (c = 45 \<or> is_digit c \<or> c = 0x4E \<or> c = 0x49)"
proof -
  from assms consider "r = u ''NaN''" | "r = u ''Infinity''" | "r = u ''-Infinity''"
    | x where "match_number r = Some x"
    by (auto simp: is_float_text_def split: option.splits)
  then show ?thesis
  proof cases
    case 4
    then obtain y where "match_integer r = Some y"
      by (auto simp: match_number_def split: option.splits)
    from match_integer_first [OF this] show ?thesis by blast
  qed (simp_all add: u_def)
qed

lemma str_int_first: "\<exists>c t. str_int i = c # t \<and> (c = 45 \<or> is_digit c)"
  using str_nat_first [of "nat i"] by (auto simp: str_int_def)

lemma iterencode_first:
  assumes "python_value X v"
  shows "\<exists>c t. iterencode level v = c # t \<and> value_char c"
proof (cases v)
  case (JInt i)
  with str_int_first [of i] show ?thesis by (auto simp: value_char_def)
next
  case (JFloat r)
  with assms float_text_first [of X r] show ?thesis by (auto simp: value_char_def)
qed (simp_all add: value_char_def u_def encode_basestring_def)

lemma value_char_not_ws: "value_char c \<Longrightarrow> \<not> is_ws c"
  by (auto simp: value_char_def is_ws_def is_digit_def)

lemma skip_ws_value: "value_char c \<Longrightarrow> skip_ws (c # t) = c # t"
  by (simp add: skip_ws_def value_char_not_ws)

lemma skip_ws_newline_indent: "skip_ws (newline_indent k @ s) = skip_ws s"
proof -
  have "dropWhile is_ws (replicate n 32 @ s) = dropWhile is_ws s" for n
    by (induction n) (simp_all add: is_ws_def)
  then show ?thesis
    by (simp add: skip_ws_def newline_indent_def is_ws_def)
qed

lemma skip_ws_iterencode:
  "python_value X v \<Longrightarrow> skip_ws (iterencode level v @ s) = iterencode level v @ s"
  using iterencode_first [of X v level] by (auto simp: skip_ws_value)

lemma delim_simps [simp]:
  "delim []" "delim (0x2C # t)" "delim (0x0A # t)" "delim (newline_indent k @ s)"
  by (simp_all add: delim_def newline_indent_def)

subsection \<open>Reading a value that is no list and no dict\<close>

lemma scan_once_int:
  assumes "delim r"
  shows "scan_once X (Suc n) (str_int i @ r) = Some (JInt i, r)"
proof -
  obtain c t where s: "str_int i = c # t" and c: "c = 45 \<or> is_digit c"
    using str_int_first by blast
  have m: "match_number (c # t @ r) = Some (c # t, [], [], r)"
    using match_number_str_int [OF assms, of i] s by simp
  have p: "py_int (c # t) = i"
    using py_int_str_int [of i] s by simp
  from c have "c \<noteq> 0x22" "c \<noteq> 0x7B" "c \<noteq> 0x5B" "c \<noteq> 0x6E" "c \<noteq> 0x74" "c \<noteq> 0x66"
    by (auto simp: is_digit_def)
  then show ?thesis
    by (simp add: s m p)
qed

lemma scan_once_float:
  assumes "is_float_text X f" and "delim r"
  shows "scan_once X (Suc n) (f @ r) = Some (JFloat f, r)"
proof -
  from assms(1) consider "f = u ''NaN''" | "f = u ''Infinity''" | "f = u ''-Infinity''"
    | integer frac exp where "match_number f = Some (integer, frac, exp, [])"
        "frac \<noteq> [] \<or> exp \<noteq> []" "float_text X (integer @ frac @ exp) = f"
    by (auto simp: is_float_text_def split: option.splits)
  then show ?thesis
  proof cases
    case 1
    then show ?thesis
      by (simp add: u_def match_number_def match_integer_def)
  next
    case 2
    then show ?thesis
      by (simp add: u_def match_number_def match_integer_def)
  next
    case 3
    then show ?thesis
      by (simp add: u_def match_number_def match_integer_def)
  next
    case 4
    obtain y where "match_integer f = Some y"
      using 4(1) by (auto simp: match_number_def split: option.splits)
    from match_integer_first [OF this] obtain c t where
      s: "f = c # t" and c: "c = 45 \<or> is_digit c"
      by blast
    have m: "match_number (c # t @ r) = Some (integer, frac, exp, r)"
      using match_number_append [OF 4(1) assms(2)] s by simp
    from c have "c \<noteq> 0x22" "c \<noteq> 0x7B" "c \<noteq> 0x5B" "c \<noteq> 0x6E" "c \<noteq> 0x74" "c \<noteq> 0x66"
      by (auto simp: is_digit_def)
    then have "scan_once X (Suc n) (c # t @ r) = Some (JFloat (c # t), r)"
      using 4(2,3) s by (auto simp: m)
    then show ?thesis
      using s by simp
  qed
qed

lemma scan_once_str:
  "scan_once X (Suc n) (encode_basestring s @ r) = Some (JStr s, r)"
  by (simp add: encode_basestring_def scanstring_escaped)

lemma scan_once_null: "scan_once X (Suc n) (u ''null'' @ r) = Some (JNull, r)"
  by (simp add: u_def)

lemma scan_once_bool:
  "scan_once X (Suc n) ((if b then u ''true'' else u ''false'') @ r) = Some (JBool b, r)"
  by (simp add: u_def)

subsection \<open>Reading the items of a list\<close>

lemma skip_ws_punct:
  "skip_ws (0x2C # t) = 0x2C # t" "skip_ws (0x3A # t) = 0x3A # t"
  "skip_ws (0x5D # t) = 0x5D # t" "skip_ws (0x7D # t) = 0x7D # t"
  "skip_ws (0x22 # t) = 0x22 # t" "skip_ws (0x20 # t) = skip_ws t"
  by (simp_all add: skip_ws_def is_ws_def)

lemma join_Cons: "xs \<noteq> [] \<Longrightarrow> join sep (x # xs) = x @ sep @ join sep xs"
  by (cases xs) simp_all

lemma join_first:
  assumes "xs \<noteq> []" and "\<And>x. x \<in> set xs \<Longrightarrow> \<exists>c t. f x = c # t \<and> P c"
  shows "\<exists>c t. join sep (map f xs) = c # t \<and> P c"
proof (cases xs)
  case Nil
  with assms(1) show ?thesis by simp
next
  case (Cons x ys)
  with assms(2) [of x] obtain c t where "f x = c # t" "P c" by auto
  with Cons show ?thesis by (cases ys) auto
qed

lemma json_array_items:
  assumes "xs \<noteq> []"
    and "\<And>x n r. x \<in> set xs \<Longrightarrow> delim r \<Longrightarrow> length (iterencode (Suc level) x) < n
           \<Longrightarrow> scan_once X n (iterencode (Suc level) x @ r) = Some (sort_keys x, r)"
    and "list_all (python_value X) xs"
    and "length (join (0x2C # newline_indent (Suc level)) (map (iterencode (Suc level)) xs)) + 1 < m"
  shows "json_array X m values
           (join (0x2C # newline_indent (Suc level)) (map (iterencode (Suc level)) xs)
            @ newline_indent level @ 0x5D # r)
         = Some (JList (values @ map sort_keys xs), r)"
  using assms
proof (induction xs arbitrary: m "values" rule: list_nonempty_induct)
  case (single x)
  from single.prems(3) obtain m' where m: "m = Suc m'" and l: "length (iterencode (Suc level) x) < m'"
    by (cases m) auto
  have "scan_once X m' (iterencode (Suc level) x @ newline_indent level @ 0x5D # r)
        = Some (sort_keys x, newline_indent level @ 0x5D # r)"
    by (rule single.prems(1)) (simp_all add: l)
  then show ?case
    by (simp add: m skip_ws_newline_indent skip_ws_punct)
next
  case (cons x xs)
  let ?sep = "0x2C # newline_indent (Suc level)"
  let ?J = "join ?sep (map (iterencode (Suc level)) xs)"
  have j: "join ?sep (iterencode (Suc level) x # map (iterencode (Suc level)) xs)
           = iterencode (Suc level) x @ ?sep @ ?J"
    using cons.hyps by (simp add: join_Cons)
  from cons.prems(3) j obtain m' where m: "m = Suc m'"
    and l: "length (iterencode (Suc level) x) < m'" and l': "length ?J + 1 < m'"
    by (cases m) auto
  have s: "scan_once X m' (iterencode (Suc level) x @ ?sep @ ?J @ newline_indent level @ 0x5D # r)
        = Some (sort_keys x, ?sep @ ?J @ newline_indent level @ 0x5D # r)"
    by (rule cons.prems(1)) (simp_all add: l)
  obtain c t where f: "?J = c # t" "value_char c"
    using join_first [OF cons.hyps(1), of "iterencode (Suc level)" value_char ?sep]
      iterencode_first [of X _ "Suc level"] cons.prems(2)
    by (auto simp: list_all_iff)
  have k: "skip_ws (newline_indent (Suc level) @ ?J @ newline_indent level @ 0x5D # r)
           = ?J @ newline_indent level @ 0x5D # r"
    by (simp add: skip_ws_newline_indent f skip_ws_value)
  have "json_array X m' (values @ [sort_keys x]) (?J @ newline_indent level @ 0x5D # r)
        = Some (JList ((values @ [sort_keys x]) @ map sort_keys xs), r)"
    using cons.prems l' by (intro cons.IH) (simp_all)
  with s k show ?case
    by (simp add: m j skip_ws_punct)
qed

subsection \<open>Reading the items of a dict\<close>

lemma dict_setitem_new: "k \<notin> fst ` set d \<Longrightarrow> dict_setitem d k v = d @ [(k, v)]"
  by (induction d) auto

lemma py_dict_fold:
  "distinct (map fst (d @ ps)) \<Longrightarrow> foldl (\<lambda>d (k, v). dict_setitem d k v) d ps = d @ ps"
proof (induction ps arbitrary: d)
  case Nil
  then show ?case by simp
next
  case (Cons p ps)
  obtain k v where p: "p = (k, v)" by (cases p)
  from Cons.prems p have "k \<notin> fst ` set d" by auto
  then have "dict_setitem d k v = d @ [(k, v)]" by (rule dict_setitem_new)
  moreover from Cons.prems p have "distinct (map fst ((d @ [(k, v)]) @ ps))" by simp
  ultimately show ?case
    using Cons.IH [of "d @ [(k, v)]"] p by simp
qed

lemma py_dict_distinct: "distinct (map fst ps) \<Longrightarrow> py_dict ps = ps"
  using py_dict_fold [of "[]" ps] by (simp add: py_dict_def)

definition item_text :: "nat \<Rightarrow> pystr \<times> json \<Rightarrow> pystr" where
  "item_text level = (\<lambda>(k, v). encode_basestring k @ u '': '' @ iterencode (Suc level) v)"

lemma item_text_eq:
  "item_text level (k, v)
   = 0x22 # concat (map escape_char k) @ 0x22 # 0x3A # 0x20 # iterencode (Suc level) v"
  by (simp add: item_text_def encode_basestring_def u_def)

lemma json_object_items:
  assumes "kvs \<noteq> []"
    and "\<And>k v n r. (k, v) \<in> set kvs \<Longrightarrow> delim r \<Longrightarrow> length (iterencode (Suc level) v) < n
           \<Longrightarrow> scan_once X n (iterencode (Suc level) v @ r) = Some (sort_keys v, r)"
    and "list_all (python_value X) (map snd kvs)"
    and "length (join (0x2C # newline_indent (Suc level)) (map (item_text level) kvs)) < m"
  shows "json_object X m pairs
           (tl (join (0x2C # newline_indent (Suc level)) (map (item_text level) kvs))
            @ newline_indent level @ 0x7D # r)
         = Some (JDict (py_dict (pairs @ map (\<lambda>(k, v). (k, sort_keys v)) kvs)), r)"
  using assms
proof (induction kvs arbitrary: m pairs rule: list_nonempty_induct)
  case (single kv)
  obtain k v where kv: "kv = (k, v)" by (cases kv)
  from single.prems(3) kv obtain m' where m: "m = Suc m'"
    and l: "length (iterencode (Suc level) v) < m'"
    by (cases m) (auto simp: item_text_eq)
  have "scan_once X m' (iterencode (Suc level) v @ newline_indent level @ 0x7D # r)
        = Some (sort_keys v, newline_indent level @ 0x7D # r)"
    by (rule single.prems(1) [of k]) (simp_all add: l kv)
  moreover have "skip_ws (iterencode (Suc level) v @ newline_indent level @ 0x7D # r)
                 = iterencode (Suc level) v @ newline_indent level @ 0x7D # r"
    using single.prems(2) kv skip_ws_iterencode [of X v] by simp
  ultimately show ?case
    by (simp add: m kv item_text_eq scanstring_escaped skip_ws_punct skip_ws_newline_indent)
next
  case (cons kv kvs)
  obtain k v where kv: "kv = (k, v)" by (cases kv)
  let ?sep = "0x2C # newline_indent (Suc level)"
  let ?J = "join ?sep (map (item_text level) kvs)"
  have j: "join ?sep (item_text level (k, v) # map (item_text level) kvs)
           = item_text level (k, v) @ ?sep @ ?J"
    using cons.hyps by (simp add: join_Cons)
  from cons.prems(3) j kv obtain m' where m: "m = Suc m'"
    and l: "length (iterencode (Suc level) v) < m'" and l': "length ?J < m'"
    by (cases m) (auto simp: item_text_eq)
  have s: "scan_once X m' (iterencode (Suc level) v @ ?sep @ ?J @ newline_indent level @ 0x7D # r)
        = Some (sort_keys v, ?sep @ ?J @ newline_indent level @ 0x7D # r)"
    by (rule cons.prems(1) [of k]) (simp_all add: l kv)
  have w: "skip_ws (iterencode (Suc level) v @ ?sep @ ?J @ newline_indent level @ 0x7D # r)
           = iterencode (Suc level) v @ ?sep @ ?J @ newline_indent level @ 0x7D # r"
    using cons.prems(2) kv skip_ws_iterencode [of X v] by simp
  obtain t where f: "?J = 0x22 # t"
    using join_first [OF cons.hyps(1), of "item_text level" "\<lambda>c. c = 0x22" ?sep]
    by (auto simp: item_text_eq)
  have "json_object X m' (pairs @ [(k, sort_keys v)]) (tl ?J @ newline_indent level @ 0x7D # r)
        = Some (JDict (py_dict ((pairs @ [(k, sort_keys v)]) @ map (\<lambda>(k, v). (k, sort_keys v)) kvs)), r)"
  proof (rule cons.IH)
    fix k' v' n' r'
    assume "(k', v') \<in> set kvs" "delim r'" "length (iterencode (Suc level) v') < n'"
    then show "scan_once X n' (iterencode (Suc level) v' @ r') = Some (sort_keys v', r')"
      by (intro cons.prems(1) [of k']) simp_all
  next
    show "list_all (python_value X) (map snd kvs)"
      using cons.prems(2) by simp
  next
    show "length ?J < m'" by (rule l')
  qed
  moreover have "tl (join ?sep (map (item_text level) (kv # kvs))) @ newline_indent level @ 0x7D # r
        = concat (map escape_char k)
          @ 0x22 # 0x3A # 0x20 # iterencode (Suc level) v @ ?sep @ 0x22 # t
          @ newline_indent level @ 0x7D # r"
    using j kv f by (simp add: item_text_eq)
  ultimately show ?case
    using s w f
    by (simp add: m kv scanstring_escaped skip_ws_punct skip_ws_newline_indent)
qed

subsection \<open>Sorting the items\<close>

lemma insort_key_map_snd:
  "insort_key fst (k, g v) (map (\<lambda>(k, v). (k, g v)) xs)
   = map (\<lambda>(k, v). (k, g v)) (insort_key fst (k, v) xs)"
  by (induction xs) auto

lemma sort_key_map_snd:
  "sort_key fst (map (\<lambda>(k, v). (k, g v)) xs) = map (\<lambda>(k, v). (k, g v)) (sort_key fst xs)"
proof (induction xs)
  case Nil
  then show ?case by simp
next
  case (Cons x xs)
  obtain k v where "x = (k, v)" by (cases x)
  with Cons show ?case by (simp add: insort_key_map_snd)
qed

lemma fst_comp_map_snd: "fst \<circ> (\<lambda>(k, v). (k, g v)) = fst"
  by (auto simp: fun_eq_iff)

lemma map_fst_map_snd: "map fst (map (\<lambda>(k, v). (k, g v)) xs) = map fst xs"
  by (simp add: fst_comp_map_snd)

lemma sort_keys_dict:
  "sort_keys (JDict kvs) = JDict (map (\<lambda>(k, v). (k, sort_keys v)) (sort_key fst kvs))"
  by (simp add: sort_key_map_snd)

lemma sort_key_sorted_items:
  "sort_key fst (map (\<lambda>(k, v). (k, g v)) (sort_key fst kvs))
   = map (\<lambda>(k, v). (k, g v)) (sort_key fst kvs)"
  by (rule sort_key_id_if_sorted) (simp add: fst_comp_map_snd sorted_sort_key)

lemma distinct_keys_sorted:
  "distinct (map fst kvs) \<Longrightarrow> distinct (map fst (map (\<lambda>(k, v). (k, g v)) (sort_key fst kvs)))"
  by (simp add: fst_comp_map_snd distinct_map)

lemma iterencode_dict:
  "kvs \<noteq> [] \<Longrightarrow>
   iterencode level (JDict kvs)
   = 0x7B # newline_indent (Suc level)
     @ join (0x2C # newline_indent (Suc level)) (map (item_text level) (sort_key fst kvs))
     @ newline_indent level @ [0x7D]"
  by (simp add: item_text_def)

lemma sort_key_Nil_iff: "sort_key f xs = [] \<longleftrightarrow> xs = []"
  by (metis length_0_conv length_sort)

lemma iterencode_sort_keys: "iterencode level (sort_keys v) = iterencode level v"
proof (induction v arbitrary: level)
  case (JList xs)
  have "map (\<lambda>x. iterencode (Suc level) (sort_keys x)) xs = map (iterencode (Suc level)) xs"
    by (rule map_cong) (simp_all add: JList)
  then show ?case by (simp add: comp_def del: map_eq_conv)
next
  case (JDict kvs)
  let ?h = "\<lambda>(k, v). (k, sort_keys v)"
  let ?K = "sort_key fst kvs"
  show ?case
  proof (cases "kvs = []")
    case True
    then show ?thesis by simp
  next
    case False
    have i: "item_text level (?h kv) = item_text level kv" if "kv \<in> set kvs" for kv
    proof -
      obtain k v where kv: "kv = (k, v)" by (cases kv)
      with that have "iterencode (Suc level) (sort_keys v) = iterencode (Suc level) v"
        by (intro JDict.IH [of kv v]) simp_all
      with kv show ?thesis by (simp add: item_text_def)
    qed
    have n: "map ?h ?K \<noteq> []"
      using False by (simp add: sort_key_Nil_iff)
    have "iterencode level (sort_keys (JDict kvs)) = iterencode level (JDict (map ?h ?K))"
      by (simp only: sort_keys_dict)
    also have "\<dots> = 0x7B # newline_indent (Suc level)
        @ join (0x2C # newline_indent (Suc level)) (map (item_text level) (sort_key fst (map ?h ?K)))
        @ newline_indent level @ [0x7D]"
      by (rule iterencode_dict [OF n])
    also have "sort_key fst (map ?h ?K) = map ?h ?K"
      by (rule sort_key_sorted_items)
    also have "map (item_text level) (map ?h ?K) = map (item_text level) ?K"
      using i by simp
    also have "0x7B # newline_indent (Suc level)
        @ join (0x2C # newline_indent (Suc level)) (map (item_text level) ?K)
        @ newline_indent level @ [0x7D] = iterencode level (JDict kvs)"
      by (rule iterencode_dict [OF False, symmetric])
    finally show ?thesis .
  qed
qed simp_all

subsection \<open>Reading any value\<close>

lemma length_newline_indent: "0 < length (newline_indent k)"
  by (simp add: newline_indent_def)

lemma scan_once_iterencode:
  assumes "python_value X v" and "delim r" and "length (iterencode level v) < n"
  shows "scan_once X n (iterencode level v @ r) = Some (sort_keys v, r)"
  using assms
proof (induction v arbitrary: level n r)
  case JNull
  then obtain n' where "n = Suc n'" by (cases n) auto
  then show ?case
    using scan_once_null [of X n' r] by (simp del: scan_once.simps)
next
  case (JBool b)
  then obtain n' where "n = Suc n'" by (cases n) auto
  then show ?case
    using scan_once_bool [of X n' b r] by (simp del: scan_once.simps)
next
  case (JInt i)
  then obtain n' where "n = Suc n'" by (cases n) auto
  with JInt.prems(2) show ?case
    using scan_once_int [of r X n' i] by (simp del: scan_once.simps)
next
  case (JFloat f)
  then obtain n' where "n = Suc n'" by (cases n) auto
  with JFloat.prems(1,2) show ?case
    using scan_once_float [of X f r n'] by (simp del: scan_once.simps)
next
  case (JStr s)
  then obtain n' where "n = Suc n'" by (cases n) auto
  then show ?case
    using scan_once_str [of X n' s r] by (simp del: scan_once.simps)
next
  case (JList xs)
  from JList.prems(3) obtain n' where n: "n = Suc n'" by (cases n) auto
  show ?case
  proof (cases "xs = []")
    case True
    then show ?thesis by (simp add: n u_def skip_ws_punct)
  next
    case False
    let ?J = "join (0x2C # newline_indent (Suc level)) (map (iterencode (Suc level)) xs)"
    have e: "iterencode level (JList xs) @ r
             = 0x5B # newline_indent (Suc level) @ ?J @ newline_indent level @ 0x5D # r"
      using False by simp
    obtain c t where f: "?J = c # t" "value_char c"
      using join_first [OF False, of "iterencode (Suc level)" value_char
          "0x2C # newline_indent (Suc level)"]
        iterencode_first [of X _ "Suc level"] JList.prems(1)
      by (auto simp: list_all_iff)
    then have c: "c \<noteq> 0x5D"
      by (auto simp: value_char_def is_digit_def)
    have k: "skip_ws (newline_indent (Suc level) @ ?J @ newline_indent level @ 0x5D # r)
             = c # t @ newline_indent level @ 0x5D # r"
      by (simp add: skip_ws_newline_indent f skip_ws_value)
    have l: "length ?J + 1 < n'"
      using JList.prems(3) False n length_newline_indent [of level]
        length_newline_indent [of "Suc level"]
      by simp
    have a: "json_array X n' [] (?J @ newline_indent level @ 0x5D # r)
             = Some (JList ([] @ map sort_keys xs), r)"
    proof (rule json_array_items [OF False _ _ l])
      fix x m r'
      assume "x \<in> set xs" "delim r'" "length (iterencode (Suc level) x) < m"
      with JList.prems(1) show "scan_once X m (iterencode (Suc level) x @ r') = Some (sort_keys x, r')"
        by (intro JList.IH) (simp_all add: list_all_iff)
    next
      show "list_all (python_value X) xs"
        using JList.prems(1) by simp
    qed
    show ?thesis
      unfolding e n using a k c f by simp
  qed
next
  case (JDict kvs)
  from JDict.prems(3) obtain n' where n: "n = Suc n'" by (cases n) auto
  show ?case
  proof (cases "kvs = []")
    case True
    then show ?thesis by (simp add: n u_def skip_ws_punct)
  next
    case False
    let ?K = "sort_key fst kvs"
    let ?J = "join (0x2C # newline_indent (Suc level)) (map (item_text level) ?K)"
    have K: "?K \<noteq> []"
      using False by (simp add: sort_key_Nil_iff)
    have e: "iterencode level (JDict kvs) @ r
             = 0x7B # newline_indent (Suc level) @ ?J @ newline_indent level @ 0x7D # r"
      using iterencode_dict [OF False, of level] by simp
    obtain t where f: "?J = 0x22 # t"
      using join_first [OF K, of "item_text level" "\<lambda>c. c = 0x22" "0x2C # newline_indent (Suc level)"]
      by (auto simp: item_text_eq)
    have k: "skip_ws (newline_indent (Suc level) @ ?J @ newline_indent level @ 0x7D # r)
             = 0x22 # t @ newline_indent level @ 0x7D # r"
      by (simp add: skip_ws_newline_indent f skip_ws_punct)
    have l: "length ?J < n'"
      using JDict.prems(3) n e length_newline_indent [of level] length_newline_indent [of "Suc level"]
      by (simp add: iterencode_dict [OF False])
    have pv: "list_all (python_value X) (map snd ?K)"
      using JDict.prems(1) by (simp add: list_all_iff)
    have a: "json_object X n' [] (tl ?J @ newline_indent level @ 0x7D # r)
             = Some (JDict (py_dict ([] @ map (\<lambda>(k, v). (k, sort_keys v)) ?K)), r)"
    proof (rule json_object_items [OF K _ pv l])
      fix k v m r'
      assume "(k, v) \<in> set ?K" "delim r'" "length (iterencode (Suc level) v) < m"
      with JDict.prems(1) show "scan_once X m (iterencode (Suc level) v @ r') = Some (sort_keys v, r')"
        by (intro JDict.IH [of "(k, v)"]) (auto simp: list_all_iff)
    qed
    have d: "py_dict (map (\<lambda>(k, v). (k, sort_keys v)) ?K) = map (\<lambda>(k, v). (k, sort_keys v)) ?K"
      using JDict.prems(1) by (intro py_dict_distinct distinct_keys_sorted) simp
    have "scan_once X (Suc n') (0x7B # newline_indent (Suc level) @ ?J @ newline_indent level @ 0x7D # r)
          = Some (JDict (map (\<lambda>(k, v). (k, sort_keys v)) ?K), r)"
      using a k f d by simp
    then show ?thesis
      unfolding e n by (simp only: sort_keys_dict)
  qed
qed

subsection \<open>Canonical formatting is idempotent\<close>

text \<open>
  C2. For every value \<open>v\<close> of the kind \<open>json.loads\<close> returns, the canonical text
  \<open>format_json v\<close> parses, to \<open>v\<close> with the items of its dicts in key order, and
  formatting what was parsed gives the same text again.
\<close>

theorem format_json_idempotent:
  assumes "python_value X v"
  shows "json_loads X (format_json v) = Some (sort_keys v)
         \<and> format_json (sort_keys v) = format_json v"
proof
  obtain c t where f: "iterencode 0 v = c # t" "value_char c"
    using iterencode_first [OF assms] by blast
  then have b: "c \<noteq> 0xFEFF"
    by (auto simp: value_char_def is_digit_def)
  have w: "skip_ws (iterencode 0 v @ [10]) = iterencode 0 v @ [10]"
    using skip_ws_iterencode [OF assms] by simp
  have "scan_once X (Suc (length (iterencode 0 v @ [10]))) (iterencode 0 v @ [10])
        = Some (sort_keys v, [10])"
    by (rule scan_once_iterencode [OF assms]) simp_all
  moreover have "skip_ws [10] = []"
    by (simp add: skip_ws_def is_ws_def)
  ultimately show "json_loads X (format_json v) = Some (sort_keys v)"
    using w f b by (simp add: json_loads_def format_json_def json_dumps_def)
  show "format_json (sort_keys v) = format_json v"
    by (simp add: format_json_def json_dumps_def iterencode_sort_keys)
qed

text \<open>
  A value with a dict whose keys are not in order, a list, a negative number, a float
  and a string with a line break and a quote.
\<close>

definition sample_value :: json where
  "sample_value =
     JDict [(u ''b'', JList [JInt (- 20), JFloat (u ''2.5''), JNull, JBool True]),
            (u ''a'', JDict [(u ''t'', JStr ([0x0A, 0x22, 0xE9]))])]"

definition sample_sorted :: json where
  "sample_sorted =
     JDict [(u ''a'', JDict [(u ''t'', JStr ([0x0A, 0x22, 0xE9]))]),
            (u ''b'', JList [JInt (- 20), JFloat (u ''2.5''), JNull, JBool True])]"

theorem format_json_idempotent_witness:
  "python_value example_ext sample_value
   \<and> json_loads example_ext (format_json sample_value) = Some sample_sorted
   \<and> format_json sample_sorted = format_json sample_value"
proof -
  have p: "python_value example_ext sample_value"
    by (simp add: sample_value_def is_float_text_def u_def match_number_def match_integer_def
        match_frac_def match_exp_def is_digit_def example_ext_def)
  have s: "sort_keys sample_value = sample_sorted"
    by (simp add: sample_value_def sample_sorted_def u_def)
  show ?thesis
    using format_json_idempotent [OF p] p s by simp
qed

end
